theory Spec2Isabelle
  imports
    Complex_Main
    "HOL-Library.Multiset"
    "HOL-Library.Sublist"
    "HOL-Library.Char_ord"
    "HOL-Library.List_Lexorder"
    "HOL-Library.Product_Lexorder"
begin

section \<open>Data model of the scheduler\<close>

text \<open>
  The scheduler is one React component whose state variables are arrays and plain
  objects. A player is identified by the name string; a team is an array of names; a
  court is an object with an id, an optional display name and an optional team; the two
  plain objects \<open>lastTeamSigByPlayer\<close> and \<open>playedCount\<close> are keyed by name.
\<close>

text \<open>
  The team of a court is \<open>undefined\<close> (\<open>None\<close>) or an array (\<open>Some t\<close>). An empty array is
  not \<open>undefined\<close>: it is truthy, so a test \<open>!c.team\<close> fails on a court with team \<open>[]\<close>
  although nobody plays there.
\<close>

text \<open>
  Every handler reads the state variables as they are when it is called and ends by
  setting some of them; a handler of the model takes the state and returns the state
  after the handler, with the functional updates of \<open>lastTeamSigByPlayer\<close> and
  \<open>playedCount\<close> applied in the order of the calls. The text fields of the form are
  left out of the state: a handler that reads one takes its value as an argument.
\<close>

type_synonym name = string
type_synonym team = "name list"

subsection \<open>Plain objects keyed by name\<close>

text \<open>
  A plain object is modelled by the map of its own properties. A read \<open>obj[name]\<close> that
  finds no own property goes on to \<open>Object.prototype\<close>: for the name of one of its
  members the read gives the inherited function or object, not \<open>undefined\<close>. A write
  \<open>obj[name] = v\<close> sets or creates the own property, except for the name \<open>__proto__\<close>
  on an object without such an own property: that write calls the inherited setter,
  which ignores a value that is not an object. The spread \<open>{ ...prev }\<close> copies the own
  properties.
\<close>

definition protoNames :: "name list" where
  "protoNames =
     [''constructor'', ''__defineGetter__'', ''__defineSetter__'', ''hasOwnProperty'',
      ''__lookupGetter__'', ''__lookupSetter__'', ''isPrototypeOf'', ''propertyIsEnumerable'',
      ''toString'', ''valueOf'', ''__proto__'', ''toLocaleString'']"

definition inherited :: "name \<Rightarrow> bool" where
  "inherited n = (n \<in> set protoNames)"

definition objSet :: "(name \<rightharpoonup> 'v) \<Rightarrow> name \<Rightarrow> 'v \<Rightarrow> (name \<rightharpoonup> 'v)" where
  "objSet obj n v = (if n = ''__proto__'' \<and> obj n = None then obj else obj(n \<mapsto> v))"

text \<open>
  A played count is a number. Adding 1 to an inherited member gives a string that is no
  numeral (\<open>"function Object() { [native code] }1"\<close>), and so does adding 1 to such a
  string; \<open>Junk\<close> stands for every value of this kind: it is truthy, not \<open>null\<close>, and
  arithmetic on it gives a string of the same kind or \<open>NaN\<close>.
\<close>

datatype count = Num nat | Junk

record court =
  cid :: nat
  cname :: "string option"
  team :: "team option"

record state =
  participants :: "name list"
  teamQueue :: "team list"
  courts :: "court list"
  lastTeamSigByPlayer :: "name \<rightharpoonup> string"
  priorityCarry :: "name list"
  restOnce :: "name list"
  playedCount :: "name \<rightharpoonup> count"
  disabledCourtsOnce :: "nat list"

definition isCourtDisabled :: "state \<Rightarrow> nat \<Rightarrow> bool" where
  "isCourtDisabled s courtId = (courtId \<in> set (disabledCourtsOnce s))"

subsection \<open>Team signatures and the repeat test\<close>

text \<open>
  \<open>teamSignature\<close> sorts a copy of the team and joins it with \<open>|\<close>. The source sorts
  with \<open>localeCompare\<close>, whose order depends on the locale of the browser; the model
  sorts with the lexicographic order on character lists. The two orders differ on some
  names (a lower-case letter is before the upper-case letters in most locales and after
  them in the model), so the signature string of the model can differ from the string
  the code builds; nothing below depends on which total order is used, only on the
  signature being the same for every seating order of the same names.
\<close>

fun join :: "string \<Rightarrow> string list \<Rightarrow> string" where
  "join sep [] = []"
| "join sep [x] = x"
| "join sep (x # y # ys) = x @ sep @ join sep (y # ys)"

definition teamSignature :: "team \<Rightarrow> string" where
  "teamSignature t = join ''|'' (sort t)"

definition isExactRepeatTeamWithMap :: "team \<Rightarrow> (name \<rightharpoonup> string) \<Rightarrow> bool" where
  "isExactRepeatTeamWithMap t m =
     (if length t \<noteq> 4 then False
      else (let sig = teamSignature t in list_all (\<lambda>n. m n = Some sig) t))"

definition markTeamAsStarted :: "team \<Rightarrow> (name \<rightharpoonup> string) \<Rightarrow> (name \<rightharpoonup> string)" where
  "markTeamAsStarted t prev = (let sig = teamSignature t in fold (\<lambda>n nxt. objSet nxt n sig) t prev)"

subsection \<open>Random draws\<close>

text \<open>
  Every call of \<open>Math.random()\<close> returns a number in the half-open unit interval. The
  model reads the draws from an arbitrary sequence of rationals, reduced to that interval
  by taking the fractional part, and threads the position of the next unread draw through
  every function that draws. Arithmetic on weights is exact; a number of the source that
  can be \<open>NaN\<close> is a \<open>rat option\<close>, with \<open>None\<close> for \<open>NaN\<close>: every sum, difference and
  product with \<open>NaN\<close> is \<open>NaN\<close> and every comparison with \<open>NaN\<close> is false.
\<close>

type_synonym num = "rat option"

definition addN :: "num \<Rightarrow> num \<Rightarrow> num" where
  "addN a b = (case (a, b) of (Some x, Some y) \<Rightarrow> Some (x + y) | _ \<Rightarrow> None)"

definition subN :: "num \<Rightarrow> num \<Rightarrow> num" where
  "subN a b = (case (a, b) of (Some x, Some y) \<Rightarrow> Some (x - y) | _ \<Rightarrow> None)"

definition mulN :: "num \<Rightarrow> num \<Rightarrow> num" where
  "mulN a b = (case (a, b) of (Some x, Some y) \<Rightarrow> Some (x * y) | _ \<Rightarrow> None)"

definition leZero :: "num \<Rightarrow> bool" where
  "leZero a = (case a of Some x \<Rightarrow> x \<le> 0 | None \<Rightarrow> False)"

type_synonym rng = "nat \<Rightarrow> rat"

definition mathRandom :: "rng \<Rightarrow> nat \<Rightarrow> rat" where
  "mathRandom g pos = frac (g pos)"

fun shuffleLoop :: "rng \<Rightarrow> nat \<Rightarrow> 'a list \<Rightarrow> nat \<Rightarrow> 'a list \<times> nat" where
  "shuffleLoop g pos a 0 = (a, pos)"
| "shuffleLoop g pos a (Suc i') =
     (let i = Suc i'; j = nat \<lfloor>mathRandom g pos * of_nat (i + 1)\<rfloor>
      in shuffleLoop g (pos + 1) (a[i := a ! j, j := a ! i]) i')"

definition shuffle :: "rng \<Rightarrow> nat \<Rightarrow> 'a list \<Rightarrow> 'a list \<times> nat" where
  "shuffle g pos arr = shuffleLoop g pos arr (length arr - 1)"

text \<open>
  \<open>getCount\<close> is \<open>playedCount[name] ?? 0\<close>: the own value, else the inherited member for
  a name of \<open>Object.prototype\<close>, else 0. The weight \<open>1 / (getCount(name) + 1)\<close> of a
  count that is no number is \<open>NaN\<close>.
\<close>

definition getCount :: "(name \<rightharpoonup> count) \<Rightarrow> name \<Rightarrow> count" where
  "getCount cnt n =
     (case cnt n of Some c \<Rightarrow> c | None \<Rightarrow> if inherited n then Junk else Num 0)"

definition weightOf :: "(name \<rightharpoonup> count) \<Rightarrow> name \<Rightarrow> num" where
  "weightOf cnt n = (case getCount cnt n of Num c \<Rightarrow> Some (1 / (of_nat c + 1)) | Junk \<Rightarrow> None)"

fun scanWeights :: "num \<Rightarrow> num list \<Rightarrow> nat \<Rightarrow> nat option" where
  "scanWeights r [] i = None"
| "scanWeights r (w # ws) i =
     (let r' = subN r w in if leZero r' then Some i else scanWeights r' ws (i + 1))"

definition weightedPickIndex :: "'a list \<Rightarrow> ('a \<Rightarrow> num) \<Rightarrow> rat \<Rightarrow> nat" where
  "weightedPickIndex items weightFn u =
     (let weights = map weightFn items; total = foldl addN (Some 0) weights in
      if leZero total then nat \<lfloor>u * of_nat (length items)\<rfloor>
      else (case scanWeights (mulN (Some u) total) weights 0 of
              Some i \<Rightarrow> i
            | None \<Rightarrow> length items - 1))"

function sampleLoop ::
  "('a \<Rightarrow> num) \<Rightarrow> rng \<Rightarrow> nat \<Rightarrow> nat \<Rightarrow> 'a list \<Rightarrow> 'a list \<Rightarrow> 'a list \<times> 'a list \<times> nat" where
  "sampleLoop weightFn g pos k pool picked =
     (if length pool > 0 \<and> length picked < k then
        (let idx = weightedPickIndex pool weightFn (mathRandom g pos)
         in sampleLoop weightFn g (pos + 1) k
              (take idx pool @ drop (idx + 1) pool) (picked @ [pool ! idx]))
      else (picked, pool, pos))"
  by pat_completeness auto
termination
  by (relation "measure (\<lambda>(weightFn, g, pos, k, pool, picked). k - length picked)") auto

declare sampleLoop.simps [simp del]

definition weightedSampleWithoutReplacement ::
  "rng \<Rightarrow> nat \<Rightarrow> 'a list \<Rightarrow> nat \<Rightarrow> ('a \<Rightarrow> num) \<Rightarrow> 'a list \<times> 'a list \<times> nat" where
  "weightedSampleWithoutReplacement g pos lst k weightFn = sampleLoop weightFn g pos k lst []"

subsection \<open>Breaking a repeated team\<close>

definition isExactRepeatTeam :: "(name \<rightharpoonup> string) \<Rightarrow> team \<Rightarrow> bool" where
  "isExactRepeatTeam sigs t = isExactRepeatTeamWithMap t sigs"

text \<open>
  The two nested loops of \<open>tryBreak\<close> visit the index pairs with the group index outermost
  and return at the first pair whose swap is not a repeat.
\<close>

definition tryBreak :: "(name \<rightharpoonup> string) \<Rightarrow> team \<Rightarrow> name list \<Rightarrow> (team \<times> name list) option" where
  "tryBreak sigs grp tail =
     (case find (\<lambda>(gi, tj). \<not> isExactRepeatTeam sigs (grp[gi := tail ! tj]))
             (List.product [0..<length grp] [0..<length tail]) of
        None \<Rightarrow> None
      | Some (gi, tj) \<Rightarrow> Some (grp[gi := tail ! tj], tail[tj := grp ! gi]))"

text \<open>
  The mean of an empty team is \<open>Infinity\<close> in the source. The sum of the counts is a
  number as long as every count is one; from the first count that is none on it is a
  string, and the quotient is \<open>NaN\<close>.
\<close>

datatype avg = Fin rat | Infinity | NaN

definition avgCount :: "(name \<rightharpoonup> count) \<Rightarrow> team \<Rightarrow> avg" where
  "avgCount cnt t =
     (if t = [] then Infinity
      else (case foldl (\<lambda>acc n. case (acc, getCount cnt n) of
                                   (Some a, Num c) \<Rightarrow> Some (a + c)
                                 | _ \<Rightarrow> None) (Some 0) t of
              Some s \<Rightarrow> Fin (of_nat s / of_nat (length t))
            | None \<Rightarrow> NaN))"

text \<open>
  The comparator of the sort is \<open>avgCount(a) - avgCount(b)\<close>; \<open>greaterAvg a b\<close> says that
  this difference is positive. The difference of two infinite means and every difference
  with \<open>NaN\<close> is \<open>NaN\<close>, which \<open>Array.prototype.sort\<close> takes as 0.
\<close>

fun greaterAvg :: "avg \<Rightarrow> avg \<Rightarrow> bool" where
  "greaterAvg (Fin x) (Fin y) = (x > y)"
| "greaterAvg Infinity (Fin y) = True"
| "greaterAvg a b = False"

text \<open>
  \<open>Array.prototype.sort\<close> is stable. When the comparator is not consistent, which
  happens only when some mean is \<open>NaN\<close> or two are infinite, the order is left to the
  engine; the model sorts by insertion, which for a consistent comparator gives the order
  of every stable sort.
\<close>

fun insertBy :: "('a \<Rightarrow> 'a \<Rightarrow> bool) \<Rightarrow> 'a \<Rightarrow> 'a list \<Rightarrow> 'a list" where
  "insertBy gt x [] = [x]"
| "insertBy gt x (y # ys) = (if gt x y then y # insertBy gt x ys else x # y # ys)"

definition sortBy :: "('a \<Rightarrow> 'a \<Rightarrow> bool) \<Rightarrow> 'a list \<Rightarrow> 'a list" where
  "sortBy gt xs = foldr (insertBy gt) xs []"

definition sortByAvgCount :: "(name \<rightharpoonup> count) \<Rightarrow> team list \<Rightarrow> team list" where
  "sortByAvgCount cnt ts = sortBy (\<lambda>a b. greaterAvg (avgCount cnt a) (avgCount cnt b)) ts"

text \<open>The arithmetic mean of the members' played counts, for comparison.\<close>

definition numCount :: "(name \<rightharpoonup> count) \<Rightarrow> name \<Rightarrow> nat" where
  "numCount cnt n = (case getCount cnt n of Num c \<Rightarrow> c | Junk \<Rightarrow> 0)"

definition meanCount :: "(name \<rightharpoonup> count) \<Rightarrow> team \<Rightarrow> rat" where
  "meanCount cnt t = of_nat (sum_list (map (numCount cnt) t)) / of_nat (length t)"

definition mergeRestOnceBack :: "name list \<Rightarrow> name list \<Rightarrow> name list" where
  "mergeRestOnceBack participantsBefore restOnceList =
     filter (\<lambda>p. p \<in> set restOnceList) participantsBefore"

subsection \<open>Forming teams\<close>

definition eligibleParticipants :: "state \<Rightarrow> name list" where
  "eligibleParticipants s = filter (\<lambda>p. p \<notin> set (restOnce s)) (participants s)"

definition eligiblePriorityCarry :: "state \<Rightarrow> name list" where
  "eligiblePriorityCarry s = filter (\<lambda>p. p \<notin> set (restOnce s)) (priorityCarry s)"

definition totalAvailable :: "state \<Rightarrow> nat" where
  "totalAvailable s = length (eligibleParticipants s) + length (eligiblePriorityCarry s)"

definition others :: "state \<Rightarrow> name list" where
  "others s = filter (\<lambda>p. p \<notin> set (eligiblePriorityCarry s)) (eligibleParticipants s)"

text \<open>Step 1: teams of four made of priority players only.\<close>

function priorityTeams ::
  "(name \<rightharpoonup> string) \<Rightarrow> name list \<Rightarrow> name list \<Rightarrow> team list \<Rightarrow> name list \<times> name list \<times> team list" where
  "priorityTeams sigs priorityList pool out =
     (if length priorityList \<ge> 4 then
        (let tm = take 4 priorityList;
             broken = (if isExactRepeatTeam sigs tm then tryBreak sigs tm pool else None)
         in priorityTeams sigs (drop 4 priorityList)
              (case broken of Some b \<Rightarrow> snd b | None \<Rightarrow> pool)
              (out @ [case broken of Some b \<Rightarrow> fst b | None \<Rightarrow> tm]))
      else (priorityList, pool, out))"
  by pat_completeness auto
termination
  by (relation "measure (\<lambda>(sigs, priorityList, pool, out). length priorityList)") auto

declare priorityTeams.simps [simp del]

text \<open>Step 2: the one to three remaining priority players, topped up by weighted draws.\<close>

definition topUp ::
  "(name \<rightharpoonup> string) \<Rightarrow> (name \<rightharpoonup> count) \<Rightarrow> rng \<Rightarrow> nat \<Rightarrow> name list \<Rightarrow> name list \<Rightarrow> team list
     \<Rightarrow> name list \<times> name list \<times> team list \<times> nat" where
  "topUp sigs cnt g pos priorityList pool out =
     (if length priorityList > 0 then
        (let need = 4 - length priorityList in
         if length pool \<ge> need then
           (case weightedSampleWithoutReplacement g pos pool need (weightOf cnt) of
              (picked, rest, pos') \<Rightarrow>
                (let tm = priorityList @ picked;
                     broken = (if isExactRepeatTeam sigs tm then tryBreak sigs tm rest else None)
                 in ([], (case broken of Some b \<Rightarrow> snd b | None \<Rightarrow> rest),
                     out @ [case broken of Some b \<Rightarrow> fst b | None \<Rightarrow> tm], pos')))
         else (priorityList, pool, out, pos))
      else (priorityList, pool, out, pos))"

text \<open>
  Step 3: the generic teams. The loop reshuffles the pool and starts over when a drawn
  team is a repeat that no swap breaks and more than four players remain, so it need
  not return: the result \<open>None\<close> stands for a loop that runs forever.
\<close>

partial_function (option) genericTeams ::
  "(name \<rightharpoonup> string) \<Rightarrow> (name \<rightharpoonup> count) \<Rightarrow> rng \<Rightarrow> nat \<Rightarrow> name list \<Rightarrow> team list
     \<Rightarrow> (team list \<times> name list \<times> nat) option" where
  "genericTeams sigs cnt g pos pool out =
     (if length pool \<ge> 4 then
        (case weightedSampleWithoutReplacement g pos pool 4 (weightOf cnt) of
           (picked, rest, pos') \<Rightarrow>
             if isExactRepeatTeam sigs picked then
               (case tryBreak sigs picked rest of
                  Some (grp, tail) \<Rightarrow> genericTeams sigs cnt g pos' tail (out @ [grp])
                | None \<Rightarrow>
                    if length pool > 4 then
                      (case shuffle g pos' pool of
                         (pool', pos'') \<Rightarrow> genericTeams sigs cnt g pos'' pool' out)
                    else genericTeams sigs cnt g pos' rest (out @ [picked]))
             else genericTeams sigs cnt g pos' rest (out @ [picked]))
      else Some (out, pool, pos))"

declare genericTeams.simps [code]

text \<open>
  What the loop preserves, for its result \<open>r\<close> from the teams \<open>out\<close> made so far and the
  pool: the players, the size of the teams, and fewer than four players left over.
\<close>

definition conserved :: "team list \<Rightarrow> name list \<Rightarrow> team list \<times> name list \<times> nat \<Rightarrow> bool" where
  "conserved out pool r \<longleftrightarrow>
     mset (concat (fst r)) + mset (fst (snd r)) = mset (concat out) + mset pool
     \<and> ((\<forall>t \<in> set out. length t = 4) \<longrightarrow> (\<forall>t \<in> set (fst r). length t = 4))
     \<and> length (fst (snd r)) < 4"

text \<open>Steps 1 to 4 together: the priority teams, the generic teams and the remainder.\<close>

definition formTeams ::
  "(name \<rightharpoonup> string) \<Rightarrow> (name \<rightharpoonup> count) \<Rightarrow> rng \<Rightarrow> name list \<Rightarrow> name list
     \<Rightarrow> (team list \<times> team list \<times> name list) option" where
  "formTeams sigs cnt g pool0 priority0 =
     (case priorityTeams sigs priority0 pool0 [] of
        (priorityList1, pool1, out1) \<Rightarrow>
          (case topUp sigs cnt g 0 priorityList1 pool1 out1 of
             (priorityList2, pool2, priorityTeamsOut, pos2) \<Rightarrow>
               (case genericTeams sigs cnt g pos2 pool2 [] of
                  None \<Rightarrow> None
                | Some (otherTeamsOut, pool3, pos3) \<Rightarrow>
                    Some (priorityTeamsOut, otherTeamsOut, priorityList2 @ pool3))))"

subsection \<open>Seating\<close>

text \<open>
  Both seating loops of \<open>handleMakeTeams\<close> walk the courts in order and give the next
  waiting team to every court that has no team and is not disabled; the first loop takes
  the teams from the front of the existing queue, the second from the new teams at the
  running index. \<open>seatLoop\<close> returns the courts, the teams not seated and the signature
  map with every seated team recorded.
\<close>

fun seatLoop ::
  "nat list \<Rightarrow> court list \<Rightarrow> team list \<Rightarrow> (name \<rightharpoonup> string)
     \<Rightarrow> court list \<times> team list \<times> (name \<rightharpoonup> string)" where
  "seatLoop dis [] ts sigs = ([], ts, sigs)"
| "seatLoop dis (c # cs) ts sigs =
     (if team c = None \<and> ts \<noteq> [] \<and> cid c \<notin> set dis then
        (case seatLoop dis cs (tl ts) (markTeamAsStarted (hd ts) sigs) of
           (cs', ts', sigs') \<Rightarrow> (c\<lparr>team := Some (hd ts)\<rparr> # cs', ts', sigs'))
      else
        (case seatLoop dis cs ts sigs of
           (cs', ts', sigs') \<Rightarrow> (c # cs', ts', sigs')))"

text \<open>
  A court can take a team when it has none and is not disabled; \<open>freeBefore\<close> counts
  such courts among the first \<open>i\<close> courts.
\<close>

definition courtFree :: "nat list \<Rightarrow> court \<Rightarrow> bool" where
  "courtFree dis c = (team c = None \<and> cid c \<notin> set dis)"

definition freeBefore :: "nat list \<Rightarrow> court list \<Rightarrow> nat \<Rightarrow> nat" where
  "freeBefore dis cs i = length (filter (courtFree dis) (take i cs))"

definition handleMakeTeams :: "rng \<Rightarrow> state \<Rightarrow> state option" where
  "handleMakeTeams g s =
     (if totalAvailable s < 4 then Some (s\<lparr>restOnce := []\<rparr>)
      else
        (case formTeams (lastTeamSigByPlayer s) (playedCount s) g (others s)
                (eligiblePriorityCarry s) of
           None \<Rightarrow> None
         | Some (priorityTeamsOut, otherTeamsOut, rest) \<Rightarrow>
             (let sortedOther = sortByAvgCount (playedCount s) otherTeamsOut;
                  newTeamsInOrder = priorityTeamsOut @ sortedOther
              in case seatLoop (disabledCourtsOnce s) (courts s) (teamQueue s)
                        (lastTeamSigByPlayer s) of
                   (courts1, existingQueue, sigs1) \<Rightarrow>
                     (case seatLoop (disabledCourtsOnce s) courts1 newTeamsInOrder sigs1 of
                        (nextCourts, queueAfterAssign, sigs2) \<Rightarrow>
                          Some (s\<lparr>priorityCarry := rest,
                                  courts := nextCourts,
                                  teamQueue := existingQueue @ queueAfterAssign,
                                  participants :=
                                    mergeRestOnceBack (participants s) (restOnce s),
                                  restOnce := [],
                                  lastTeamSigByPlayer := sigs2\<rparr>)))))"


subsection \<open>Finishing a match\<close>

fun findIndex :: "('a \<Rightarrow> bool) \<Rightarrow> 'a list \<Rightarrow> nat option" where
  "findIndex P [] = None"
| "findIndex P (x # xs) =
     (if P x then Some 0 else map_option Suc (findIndex P xs))"

text \<open>
  The update \<open>next[name] = (next[name] || 0) + 1\<close> of the played counts, once for every
  entry of the finished team.
\<close>

definition bumpCounts :: "team \<Rightarrow> (name \<rightharpoonup> count) \<Rightarrow> (name \<rightharpoonup> count)" where
  "bumpCounts finishedTeam prev =
     fold (\<lambda>n nxt. objSet nxt n
             (case nxt n of
                Some (Num c) \<Rightarrow> Num (c + 1)
              | Some Junk \<Rightarrow> Junk
              | None \<Rightarrow> if inherited n then Junk else Num 1)) finishedTeam prev"

text \<open>A count with \<open>k\<close> added: a count that is no number stays one.\<close>

definition plusCount :: "count \<Rightarrow> nat \<Rightarrow> count" where
  "plusCount v k = (case v of Num c \<Rightarrow> Num (c + k) | Junk \<Rightarrow> Junk)"

definition handleFinishCourt :: "nat \<Rightarrow> state \<Rightarrow> state" where
  "handleFinishCourt courtId s =
     (case findIndex (\<lambda>c. cid c = courtId) (courts s) of
        None \<Rightarrow> s
      | Some idx \<Rightarrow>
          (let finishedTeam = (case team (courts s ! idx) of Some t \<Rightarrow> t | None \<Rightarrow> []);
               counts = bumpCounts finishedTeam (playedCount s);
               returned = participants s @ finishedTeam
           in if teamQueue s \<noteq> [] \<and> \<not> isCourtDisabled s courtId then
                (let nextTeam = hd (teamQueue s) in
                 s\<lparr>playedCount := counts,
                   lastTeamSigByPlayer := markTeamAsStarted nextTeam (lastTeamSigByPlayer s),
                   teamQueue := tl (teamQueue s),
                   participants := returned,
                   courts := (courts s)[idx := (courts s ! idx)\<lparr>team := Some nextTeam\<rparr>]\<rparr>)
              else
                s\<lparr>playedCount := counts,
                  participants := returned,
                  courts := (courts s)[idx := (courts s ! idx)\<lparr>team := None\<rparr>]\<rparr>))"

subsection \<open>Changing the number of courts\<close>

text \<open>
  A new court is named by the two-syllable Korean word for court, written here as its
  UTF-8 bytes, followed by a space and the court number in decimal.
\<close>

definition courtLabel :: string where
  "courtLabel = [CHR 0xEC, CHR 0xBD, CHR 0x94, CHR 0xED, CHR 0x8A, CHR 0xB8]"

definition digitChar :: "nat \<Rightarrow> char" where
  "digitChar d = char_of (48 + d)"

function decimal :: "nat \<Rightarrow> string" where
  "decimal n = (if n < 10 then [digitChar n] else decimal (n div 10) @ [digitChar (n mod 10)])"
  by pat_completeness auto
termination
  by (relation "measure (\<lambda>n. n)") auto

declare decimal.simps [simp del]

definition defaultCourtName :: "nat \<Rightarrow> string" where
  "defaultCourtName i = courtLabel @ '' '' @ decimal i"

definition newCourt :: "nat \<Rightarrow> court" where
  "newCourt i = \<lparr>cid = i, cname = Some (defaultCourtName i), team = None\<rparr>"

definition renumber :: "nat \<times> court \<Rightarrow> court" where
  "renumber p =
     (case p of (idx, c) \<Rightarrow>
        \<lparr>cid = idx + 1,
         cname = Some (case cname c of Some nm \<Rightarrow> nm | None \<Rightarrow> defaultCourtName (idx + 1)),
         team = team c\<rparr>)"

text \<open>
  The argument is the number read from the court-count input (0 when it is not a
  number); the function clamps it to 0..32 itself.
\<close>

definition applyCourtCount :: "int \<Rightarrow> state \<Rightarrow> state" where
  "applyCourtCount courtCountInput s =
     (let n = nat (max 0 (min 32 courtCountInput)) in
      if n = length (courts s) then s
      else if n > length (courts s) then
        s\<lparr>courts := courts s @ map newCourt [length (courts s) + 1 ..< n + 1]\<rparr>
      else
        (let toRemove = drop n (courts s);
             survivors = take n (courts s);
             displacedTeams = List.map_filter team toRemove;
             mergedQueue = displacedTeams @ teamQueue s
         in s\<lparr>courts := map renumber (enumerate 0 survivors),
               teamQueue := mergedQueue,
               disabledCourtsOnce := filter (\<lambda>i. i \<le> n) (disabledCourtsOnce s)\<rparr>))"

subsection \<open>Disabling and enabling a court\<close>

definition toggleDisableCourtOnce :: "nat \<Rightarrow> state \<Rightarrow> state" where
  "toggleDisableCourtOnce courtId s =
     (let found = findIndex (\<lambda>c. cid c = courtId) (courts s) in
      if \<not> isCourtDisabled s courtId then
        (case found of
           Some idx \<Rightarrow>
             (case team (courts s ! idx) of
                Some movingTeam \<Rightarrow>
                  if length movingTeam > 0 then
                    s\<lparr>courts := (courts s)[idx := (courts s ! idx)\<lparr>team := None\<rparr>],
                      teamQueue := movingTeam # teamQueue s,
                      disabledCourtsOnce := disabledCourtsOnce s @ [courtId]\<rparr>
                  else s\<lparr>disabledCourtsOnce := disabledCourtsOnce s @ [courtId]\<rparr>
              | None \<Rightarrow> s\<lparr>disabledCourtsOnce := disabledCourtsOnce s @ [courtId]\<rparr>)
         | None \<Rightarrow> s\<lparr>disabledCourtsOnce := disabledCourtsOnce s @ [courtId]\<rparr>)
      else
        (case found of
           Some idx \<Rightarrow>
             if team (courts s ! idx) = None \<and> length (teamQueue s) > 0 then
               (let nextTeam = hd (teamQueue s) in
                s\<lparr>courts := (courts s)[idx := (courts s ! idx)\<lparr>team := Some nextTeam\<rparr>],
                  teamQueue := tl (teamQueue s),
                  lastTeamSigByPlayer := markTeamAsStarted nextTeam (lastTeamSigByPlayer s),
                  disabledCourtsOnce := filter (\<lambda>i. i \<noteq> courtId) (disabledCourtsOnce s)\<rparr>)
             else s\<lparr>disabledCourtsOnce := filter (\<lambda>i. i \<noteq> courtId) (disabledCourtsOnce s)\<rparr>
         | None \<Rightarrow> s\<lparr>disabledCourtsOnce := filter (\<lambda>i. i \<noteq> courtId) (disabledCourtsOnce s)\<rparr>))"

subsection \<open>Registering new names only\<close>






text \<open>
  \<open>ensureCountsFor\<close> writes 0 where the read \<open>next[n]\<close> is \<open>null\<close> or \<open>undefined\<close>, which
  an inherited member is not.
\<close>

definition ensureCountsFor :: "name list \<Rightarrow> (name \<rightharpoonup> count) \<Rightarrow> (name \<rightharpoonup> count)" where
  "ensureCountsFor names prev =
     fold (\<lambda>n nxt. if nxt n = None \<and> \<not> inherited n then objSet nxt n (Num 0) else nxt) names prev"


subsection \<open>Returning a replaced player to a court\<close>

text \<open>
  When a player dragged from a court is dropped on a player of the queue, of the priority
  list or of another court, the drop handler removes the dragged player from the source
  court, puts them in the place of the player they were dropped on and calls
  \<open>returnReplacedToSource\<close> with that player. The definition is its branch for a source on
  a court, with the court id and the member index of the source: it does nothing for the
  empty name, which is falsy; the copy of the courts gives every court without a team the
  team \<open>[]\<close>, and \<open>splice\<close> puts the player at the member index, or at the end of a
  shorter team.
\<close>

definition returnReplacedToSource :: "name \<Rightarrow> nat \<Rightarrow> nat \<Rightarrow> state \<Rightarrow> state" where
  "returnReplacedToSource replaced courtId memberIndex s =
     (if replaced = [] then s else
      let next = map (\<lambda>c. c\<lparr>team := Some (case team c of Some t \<Rightarrow> t | None \<Rightarrow> [])\<rparr>) (courts s);
          next' = (case findIndex (\<lambda>c. cid c = courtId) next of
                     Some idx \<Rightarrow>
                       (let t = (case team (next ! idx) of Some t \<Rightarrow> t | None \<Rightarrow> [])
                        in next[idx := (next ! idx)
                                  \<lparr>team := Some (take memberIndex t @ [replaced] @ drop memberIndex t)\<rparr>])
                   | None \<Rightarrow> next)
      in s\<lparr>courts := next', playedCount := ensureCountsFor [replaced] (playedCount s)\<rparr>)"

section \<open>Example states\<close>

definition emptyCourt :: "nat \<Rightarrow> court" where
  "emptyCourt i = \<lparr>cid = i, cname = None, team = None\<rparr>"

text \<open>One priority player and two waiting players, one of them resting.\<close>

definition exFew :: state where
  "exFew =
     \<lparr>participants = [''Y'', ''Z''], teamQueue = [], courts = [emptyCourt 1, emptyCourt 2],
      lastTeamSigByPlayer = Map.empty, priorityCarry = [''X''], restOnce = [''Z''],
      playedCount = Map.empty, disabledCourtsOnce = []\<rparr>"


text \<open>The draws that are all 0: every weighted pick takes the first candidate.\<close>

definition zeroDraws :: rng where
  "zeroDraws = (\<lambda>_. 0)"

text \<open>Two busy courts, an empty disabled third court and one queued team.\<close>

definition exBusy :: state where
  "exBusy =
     \<lparr>participants = [''W''], teamQueue = [[''S1'', ''S2'', ''S3'', ''S4'']],
      courts = [\<lparr>cid = 1, cname = None, team = Some [''P1'', ''P2'', ''P3'', ''P4'']\<rparr>,
                \<lparr>cid = 2, cname = None, team = Some [''Q1'', ''Q2'', ''Q3'', ''Q4'']\<rparr>,
                emptyCourt 3],
      lastTeamSigByPlayer = Map.empty, priorityCarry = [], restOnce = [],
      playedCount = [''P1'' \<mapsto> Num 2], disabledCourtsOnce = [3]\<rparr>"

text \<open>The same with an empty queue.\<close>

definition exIdle :: state where
  "exIdle = exBusy\<lparr>teamQueue := []\<rparr>"

text \<open>Courts 2 and 3 hold teams, court 3 is disabled, one team is queued.\<close>

definition exThree :: state where
  "exThree =
     \<lparr>participants = [], teamQueue = [[''G0'', ''H0'', ''I0'', ''J0'']],
      courts = [emptyCourt 1,
                \<lparr>cid = 2, cname = Some ''centre'', team = Some [''G2'', ''H2'', ''I2'', ''J2'']\<rparr>,
                \<lparr>cid = 3, cname = None, team = Some [''G3'', ''H3'', ''I3'', ''J3'']\<rparr>],
      lastTeamSigByPlayer = Map.empty, priorityCarry = [], restOnce = [],
      playedCount = Map.empty, disabledCourtsOnce = [3]\<rparr>"


text \<open>
  Eleven waiting players of whom four have played three matches, one priority player, one
  queued team, courts 1 and 4 empty, court 2 busy, court 3 empty and disabled.
\<close>

definition exRun :: state where
  "exRun =
     \<lparr>participants = [''A'', ''B'', ''C'', ''D'', ''E'', ''F'', ''G'', ''H'', ''I'', ''J'', ''K''],
      teamQueue = [[''P1'', ''P2'', ''P3'', ''P4'']],
      courts = [emptyCourt 1,
                \<lparr>cid = 2, cname = None, team = Some [''Q1'', ''Q2'', ''Q3'', ''Q4'']\<rparr>,
                emptyCourt 3, emptyCourt 4],
      lastTeamSigByPlayer = Map.empty, priorityCarry = [''X''], restOnce = [],
      playedCount = [''A'' \<mapsto> Num 3, ''B'' \<mapsto> Num 3, ''C'' \<mapsto> Num 3, ''D'' \<mapsto> Num 3],
      disabledCourtsOnce = [3]\<rparr>"

text \<open>A player in both the waiting pool and the priority carry-over, another twice waiting.\<close>

definition exOverlap :: state where
  "exOverlap =
     \<lparr>participants = [''X'', ''B'', ''B'', ''C''], teamQueue = [],
      courts = [emptyCourt 1, emptyCourt 2],
      lastTeamSigByPlayer = Map.empty, priorityCarry = [''X''], restOnce = [],
      playedCount = Map.empty, disabledCourtsOnce = []\<rparr>"

text \<open>Five waiting entries of one name whose last team was four such entries.\<close>

definition exHang :: state where
  "exHang =
     \<lparr>participants = [''A'', ''A'', ''A'', ''A'', ''A''], teamQueue = [],
      courts = [emptyCourt 1, emptyCourt 2],
      lastTeamSigByPlayer = [''A'' \<mapsto> ''A|A|A|A''], priorityCarry = [], restOnce = [],
      playedCount = Map.empty, disabledCourtsOnce = []\<rparr>"

text \<open>
  A player of court 2 has been dragged onto the first player of the queued team: the
  dragged player is off the court and in the queue, the replaced player is still to be
  returned. Court 1 has no team. Everybody has the played count 0.
\<close>

definition exDrop :: state where
  "exDrop =
     \<lparr>participants = [''A'', ''B'', ''C'', ''D''], teamQueue = [[''Q1'', ''P2'', ''P3'', ''P4'']],
      courts = [emptyCourt 1, \<lparr>cid = 2, cname = None, team = Some [''Q2'', ''Q3'', ''Q4'']\<rparr>],
      lastTeamSigByPlayer = Map.empty, priorityCarry = [], restOnce = [],
      playedCount =
        map_of (map (\<lambda>n. (n, Num 0))
          [''A'', ''B'', ''C'', ''D'', ''P1'', ''P2'', ''P3'', ''P4'', ''Q1'', ''Q2'', ''Q3'', ''Q4'']),
      disabledCourtsOnce = []\<rparr>"

text \<open>The state after the drop: the replaced player is back on court 2.\<close>

definition exSwapped :: state where
  "exSwapped = returnReplacedToSource ''P1'' 2 0 exDrop"

text \<open>The same drop when court 1 had been disabled before.\<close>

definition exSwappedOff :: state where
  "exSwappedOff = returnReplacedToSource ''P1'' 2 0 (exDrop\<lparr>disabledCourtsOnce := [1]\<rparr>)"

text \<open>
  Court 1 holds one player twice and a player named like a member of
  \<open>Object.prototype\<close>; the first player of the queued team is named \<open>__proto__\<close>.
\<close>

definition exTwice :: state where
  "exTwice =
     \<lparr>participants = [], teamQueue = [[''__proto__'', ''S2'', ''S3'', ''S4'']],
      courts = [\<lparr>cid = 1, cname = None, team = Some [''A'', ''A'', ''constructor'', ''C'']\<rparr>],
      lastTeamSigByPlayer = Map.empty, priorityCarry = [], restOnce = [],
      playedCount = [''A'' \<mapsto> Num 4], disabledCourtsOnce = []\<rparr>"

section \<open>Properties\<close>

lemma inherited_proto: "inherited ''__proto__''"
  by (simp add: inherited_def protoNames_def)

lemma objSet_apply:
  "objSet obj k v n = (if n = k \<and> \<not> (k = ''__proto__'' \<and> obj k = None) then Some v else obj n)"
  by (auto simp: objSet_def)

text \<open>
  A seated team is recorded for each of its members, except that nothing is recorded
  under the name \<open>__proto__\<close> in a map that has no own property of that name.
\<close>

lemma markTeamAsStarted_apply:
  "markTeamAsStarted t m n =
     (if n \<in> set t \<and> \<not> (n = ''__proto__'' \<and> m n = None) then Some (teamSignature t) else m n)"
proof -
  have "fold (\<lambda>n nxt. objSet nxt n sg) t m n =
          (if n \<in> set t \<and> \<not> (n = ''__proto__'' \<and> m n = None) then Some sg else m n)" for sg
    by (induction t arbitrary: m) (auto simp: objSet_apply)
  then show ?thesis by (simp add: markTeamAsStarted_def Let_def)
qed

text \<open>
  Claim C7. For every candidate team and every signature map, the repeat test is true
  exactly when the team has four members and every member's recorded signature is the
  signature of this team. A team of another size, a member with no recorded signature
  and a member with a different recorded signature each make it false.
\<close>

theorem isExactRepeatTeamWithMap_iff:
  "isExactRepeatTeamWithMap t m \<longleftrightarrow>
     length t = 4 \<and> (\<forall>n \<in> set t. m n = Some (teamSignature t))"
  by (simp add: isExactRepeatTeamWithMap_def Let_def list_all_iff)

text \<open>
  At a concrete map: the team seated last is a repeat in any seating order, a team of
  three is not, a team with a player who has no recorded signature is not, and a team
  with a player whose recorded signature belongs to another team is not.
\<close>

theorem isExactRepeatTeamWithMap_iff_witness:
  "isExactRepeatTeamWithMap [''D'', ''B'', ''A'', ''C'']
     [''A'' \<mapsto> ''A|B|C|D'', ''B'' \<mapsto> ''A|B|C|D'', ''C'' \<mapsto> ''A|B|C|D'', ''D'' \<mapsto> ''A|B|C|D'']
   \<and> \<not> isExactRepeatTeamWithMap [''A'', ''B'', ''C'']
     [''A'' \<mapsto> ''A|B|C'', ''B'' \<mapsto> ''A|B|C'', ''C'' \<mapsto> ''A|B|C'']
   \<and> \<not> isExactRepeatTeamWithMap [''A'', ''B'', ''C'', ''E'']
     [''A'' \<mapsto> ''A|B|C|E'', ''B'' \<mapsto> ''A|B|C|E'', ''C'' \<mapsto> ''A|B|C|E'']
   \<and> \<not> isExactRepeatTeamWithMap [''A'', ''B'', ''C'', ''D'']
     [''A'' \<mapsto> ''A|B|C|D'', ''B'' \<mapsto> ''A|B|C|D'', ''C'' \<mapsto> ''A|B|C|D'', ''D'' \<mapsto> ''D|X|Y|Z'']"
  using
    isExactRepeatTeamWithMap_iff [of "[''D'', ''B'', ''A'', ''C'']"
      "[''A'' \<mapsto> ''A|B|C|D'', ''B'' \<mapsto> ''A|B|C|D'', ''C'' \<mapsto> ''A|B|C|D'', ''D'' \<mapsto> ''A|B|C|D'']"]
    isExactRepeatTeamWithMap_iff [of "[''A'', ''B'', ''C'']"
      "[''A'' \<mapsto> ''A|B|C'', ''B'' \<mapsto> ''A|B|C'', ''C'' \<mapsto> ''A|B|C'']"]
    isExactRepeatTeamWithMap_iff [of "[''A'', ''B'', ''C'', ''E'']"
      "[''A'' \<mapsto> ''A|B|C|E'', ''B'' \<mapsto> ''A|B|C|E'', ''C'' \<mapsto> ''A|B|C|E'']"]
    isExactRepeatTeamWithMap_iff [of "[''A'', ''B'', ''C'', ''D'']"
      "[''A'' \<mapsto> ''A|B|C|D'', ''B'' \<mapsto> ''A|B|C|D'', ''C'' \<mapsto> ''A|B|C|D'', ''D'' \<mapsto> ''D|X|Y|Z'']"]
  by (simp add: teamSignature_def)

subsection \<open>Courts: finishing, disabling, resizing\<close>

lemma findIndex_Some:
  "findIndex P xs = Some i \<Longrightarrow> i < length xs \<and> P (xs ! i) \<and> (\<forall>j<i. \<not> P (xs ! j))"
proof (induction xs arbitrary: i)
  case Nil
  then show ?case by simp
next
  case (Cons x xs)
  show ?case
  proof (cases "P x")
    case True
    with Cons.prems show ?thesis by simp
  next
    case False
    with Cons.prems obtain k where k: "findIndex P xs = Some k" "i = Suc k"
      by auto
    from Cons.IH [OF k(1)] False k(2) show ?thesis
      by (auto simp: nth_Cons split: nat.splits)
  qed
qed

text \<open>
  Every entry of the finished team adds 1 to the count of its name: a count that reads
  as the number \<open>c\<close> ends as \<open>c\<close> plus the number of entries of the name. A count that
  reads as no number stays none, and nothing is written under the name \<open>__proto__\<close> in a
  map that has no own property of that name.
\<close>

lemma bumpCounts_apply:
  "bumpCounts t m n =
     (if n \<in> set t \<and> \<not> (n = ''__proto__'' \<and> m n = None)
      then Some (plusCount (getCount m n) (count_list t n)) else m n)"
proof -
  let ?f = "\<lambda>n nxt. objSet nxt n
             (case nxt n of
                Some (Num c) \<Rightarrow> Num (c + 1)
              | Some Junk \<Rightarrow> Junk
              | None \<Rightarrow> if inherited n then Junk else Num 1)"
  have "fold ?f t m n =
          (if n \<in> set t \<and> \<not> (n = ''__proto__'' \<and> m n = None)
           then Some (plusCount (getCount m n) (count_list t n)) else m n)"
  proof (induction t arbitrary: m)
    case Nil
    show ?case by simp
  next
    case (Cons x xs)
    show ?case
    proof (cases "x = n")
      case False
      then have "?f x m n = m n" by (simp add: objSet_apply)
      with False Cons.IH [of "?f x m"] show ?thesis by (simp add: getCount_def)
    next
      case True
      show ?thesis
      proof (cases "n = ''__proto__'' \<and> m n = None")
        case True
        with \<open>x = n\<close> have fm: "?f x m = m" by (auto simp: objSet_def)
        have "fold ?f (x # xs) m n = fold ?f xs m n" by (simp add: fm)
        also have "\<dots> = m n" using True Cons.IH [of m] by auto
        finally show ?thesis using True by auto
      next
        case False
        with \<open>x = n\<close> have fx: "?f x m n = Some (plusCount (getCount m n) 1)"
          by (auto simp: objSet_apply plusCount_def getCount_def split: option.splits count.splits)
        define m' where "m' = ?f x m"
        from fx have m'n: "m' n = Some (plusCount (getCount m n) 1)" by (simp add: m'_def)
        then have g: "getCount m' n = plusCount (getCount m n) 1" by (simp add: getCount_def)
        have pp: "plusCount (plusCount v (Suc 0)) k = plusCount v (Suc k)" for v k
          by (simp add: plusCount_def split: count.splits)
        have "fold ?f (x # xs) m n = fold ?f xs m' n" by (simp add: m'_def)
        also have "\<dots> = (if n \<in> set xs then Some (plusCount (getCount m' n) (count_list xs n))
                          else m' n)"
          using Cons.IH [of m'] m'n by simp
        also have "\<dots> = Some (plusCount (getCount m n) (Suc (count_list xs n)))"
          by (simp add: g pp m'n count_list_0_iff)
        finally show ?thesis using False \<open>x = n\<close> by auto
      qed
    qed
  qed
  then show ?thesis by (simp add: bumpCounts_def)
qed

text \<open>
  Claim C4, as amended. On a court that holds a team, finishing the match adds to the played count
  of each member whose count reads as a number the number of times the member's name
  occurs in the team, which is 1 for a name that occurs once, and leaves the count of
  everybody else alone; it appends the members to the end of the waiting pool in their
  court order; and then, when the queue is not empty and the court is not disabled, the
  front team of the queue is on the court, is gone from the queue and is the recorded
  signature of each of its members not named \<open>__proto__\<close>, the signatures of everybody
  else being untouched; otherwise the court has no team and the queue and the signatures
  are untouched. No other court changes.
\<close>

theorem handleFinishCourt_correct:
  "findIndex (\<lambda>c. cid c = courtId) (courts s) = Some idx \<Longrightarrow>
   team (courts s ! idx) = Some t \<Longrightarrow>
     (\<forall>n \<in> set t. \<forall>c. getCount (playedCount s) n = Num c \<longrightarrow>
        playedCount (handleFinishCourt courtId s) n = Some (Num (c + count_list t n)))
     \<and> (\<forall>n \<in> set t. \<forall>c. getCount (playedCount s) n = Num c \<and> count_list t n = 1 \<longrightarrow>
        getCount (playedCount (handleFinishCourt courtId s)) n = Num (c + 1))
     \<and> (\<forall>n. n \<notin> set t \<longrightarrow> playedCount (handleFinishCourt courtId s) n = playedCount s n)
     \<and> participants (handleFinishCourt courtId s) = participants s @ t
     \<and> length (courts (handleFinishCourt courtId s)) = length (courts s)
     \<and> (\<forall>i < length (courts s). i \<noteq> idx \<longrightarrow> courts (handleFinishCourt courtId s) ! i = courts s ! i)
     \<and> cid (courts (handleFinishCourt courtId s) ! idx) = courtId
     \<and> (teamQueue s \<noteq> [] \<and> \<not> isCourtDisabled s courtId \<longrightarrow>
          team (courts (handleFinishCourt courtId s) ! idx) = Some (hd (teamQueue s))
          \<and> teamQueue (handleFinishCourt courtId s) = tl (teamQueue s)
          \<and> (\<forall>n \<in> set (hd (teamQueue s)). n \<noteq> ''__proto__'' \<longrightarrow>
                lastTeamSigByPlayer (handleFinishCourt courtId s) n =
                  Some (teamSignature (hd (teamQueue s))))
          \<and> (\<forall>n. n \<notin> set (hd (teamQueue s)) \<longrightarrow>
                lastTeamSigByPlayer (handleFinishCourt courtId s) n = lastTeamSigByPlayer s n))
     \<and> (\<not> (teamQueue s \<noteq> [] \<and> \<not> isCourtDisabled s courtId) \<longrightarrow>
          team (courts (handleFinishCourt courtId s) ! idx) = None
          \<and> teamQueue (handleFinishCourt courtId s) = teamQueue s
          \<and> lastTeamSigByPlayer (handleFinishCourt courtId s) = lastTeamSigByPlayer s)"
proof -
  assume found: "findIndex (\<lambda>c. cid c = courtId) (courts s) = Some idx"
    and holds: "team (courts s ! idx) = Some t"
  from findIndex_Some [OF found] have idx: "idx < length (courts s)" "cid (courts s ! idx) = courtId"
    by auto
  have own: "\<not> (n = ''__proto__'' \<and> playedCount s n = None)" if "getCount (playedCount s) n = Num c" for n c
    using that by (auto simp: getCount_def inherited_proto split: option.splits)
  have counts: "playedCount (handleFinishCourt courtId s) = bumpCounts t (playedCount s)"
    using found holds by (simp add: handleFinishCourt_def Let_def)
  have c1: "\<forall>n \<in> set t. \<forall>c. getCount (playedCount s) n = Num c \<longrightarrow>
        playedCount (handleFinishCourt courtId s) n = Some (Num (c + count_list t n))"
    using own by (auto simp: counts bumpCounts_apply plusCount_def)
  have c2: "\<forall>n \<in> set t. \<forall>c. getCount (playedCount s) n = Num c \<and> count_list t n = 1 \<longrightarrow>
        getCount (playedCount (handleFinishCourt courtId s)) n = Num (c + 1)"
    using c1 by (auto simp: getCount_def)
  have c3: "\<forall>n. n \<notin> set t \<longrightarrow> playedCount (handleFinishCourt courtId s) n = playedCount s n"
    by (simp add: counts bumpCounts_apply)
  have rest: "participants (handleFinishCourt courtId s) = participants s @ t
     \<and> length (courts (handleFinishCourt courtId s)) = length (courts s)
     \<and> (\<forall>i < length (courts s). i \<noteq> idx \<longrightarrow> courts (handleFinishCourt courtId s) ! i = courts s ! i)
     \<and> cid (courts (handleFinishCourt courtId s) ! idx) = courtId
     \<and> (teamQueue s \<noteq> [] \<and> \<not> isCourtDisabled s courtId \<longrightarrow>
          team (courts (handleFinishCourt courtId s) ! idx) = Some (hd (teamQueue s))
          \<and> teamQueue (handleFinishCourt courtId s) = tl (teamQueue s)
          \<and> (\<forall>n \<in> set (hd (teamQueue s)). n \<noteq> ''__proto__'' \<longrightarrow>
                lastTeamSigByPlayer (handleFinishCourt courtId s) n =
                  Some (teamSignature (hd (teamQueue s))))
          \<and> (\<forall>n. n \<notin> set (hd (teamQueue s)) \<longrightarrow>
                lastTeamSigByPlayer (handleFinishCourt courtId s) n = lastTeamSigByPlayer s n))
     \<and> (\<not> (teamQueue s \<noteq> [] \<and> \<not> isCourtDisabled s courtId) \<longrightarrow>
          team (courts (handleFinishCourt courtId s) ! idx) = None
          \<and> teamQueue (handleFinishCourt courtId s) = teamQueue s
          \<and> lastTeamSigByPlayer (handleFinishCourt courtId s) = lastTeamSigByPlayer s)"
    using found holds idx
    by (auto simp: handleFinishCourt_def Let_def markTeamAsStarted_apply)
  from c1 c2 c3 rest show ?thesis by blast
qed

text \<open>
  What the toggle does on a court of the list, by the flag and the team of the court.
  Switching the flag on moves a team of at least one player to the front of the queue and
  leaves the court without a team; on a court without a team or with the team \<open>[]\<close>
  it only sets the flag. Switching the flag off seats the front team of the queue and
  records it when the court has no team and the queue is not empty; on a court with a
  team, the team \<open>[]\<close> included, or with an empty queue it only clears the flag. No
  other court changes.
\<close>

lemma toggleDisableCourtOnce_cases:
  "findIndex (\<lambda>c. cid c = courtId) (courts s) = Some idx \<Longrightarrow>
     (\<not> isCourtDisabled s courtId \<and> team (courts s ! idx) = Some t \<and> t \<noteq> [] \<longrightarrow>
        teamQueue (toggleDisableCourtOnce courtId s) = t # teamQueue s
        \<and> team (courts (toggleDisableCourtOnce courtId s) ! idx) = None
        \<and> isCourtDisabled (toggleDisableCourtOnce courtId s) courtId
        \<and> lastTeamSigByPlayer (toggleDisableCourtOnce courtId s) = lastTeamSigByPlayer s)
     \<and> (\<not> isCourtDisabled s courtId
          \<and> (team (courts s ! idx) = None \<or> team (courts s ! idx) = Some []) \<longrightarrow>
        teamQueue (toggleDisableCourtOnce courtId s) = teamQueue s
        \<and> team (courts (toggleDisableCourtOnce courtId s) ! idx) = team (courts s ! idx)
        \<and> isCourtDisabled (toggleDisableCourtOnce courtId s) courtId
        \<and> lastTeamSigByPlayer (toggleDisableCourtOnce courtId s) = lastTeamSigByPlayer s)
     \<and> (isCourtDisabled s courtId \<and> team (courts s ! idx) = None \<and> teamQueue s \<noteq> [] \<longrightarrow>
        team (courts (toggleDisableCourtOnce courtId s) ! idx) = Some (hd (teamQueue s))
        \<and> teamQueue (toggleDisableCourtOnce courtId s) = tl (teamQueue s)
        \<and> \<not> isCourtDisabled (toggleDisableCourtOnce courtId s) courtId
        \<and> lastTeamSigByPlayer (toggleDisableCourtOnce courtId s) =
            markTeamAsStarted (hd (teamQueue s)) (lastTeamSigByPlayer s))
     \<and> (isCourtDisabled s courtId \<and> (team (courts s ! idx) \<noteq> None \<or> teamQueue s = []) \<longrightarrow>
        team (courts (toggleDisableCourtOnce courtId s) ! idx) = team (courts s ! idx)
        \<and> teamQueue (toggleDisableCourtOnce courtId s) = teamQueue s
        \<and> \<not> isCourtDisabled (toggleDisableCourtOnce courtId s) courtId
        \<and> lastTeamSigByPlayer (toggleDisableCourtOnce courtId s) = lastTeamSigByPlayer s)
     \<and> length (courts (toggleDisableCourtOnce courtId s)) = length (courts s)
     \<and> (\<forall>i < length (courts s). i \<noteq> idx \<longrightarrow>
          courts (toggleDisableCourtOnce courtId s) ! i = courts s ! i)
     \<and> cid (courts (toggleDisableCourtOnce courtId s) ! idx) = courtId"
proof -
  assume found: "findIndex (\<lambda>c. cid c = courtId) (courts s) = Some idx"
  from findIndex_Some [OF found] have idx: "idx < length (courts s)" "cid (courts s ! idx) = courtId"
    by auto
  show ?thesis
    using found idx
    by (auto simp: toggleDisableCourtOnce_def Let_def isCourtDisabled_def
        split: option.splits)
qed

lemma exSwappedOff_state:
  "map team (courts exSwappedOff) = [Some [], Some [''P1'', ''Q2'', ''Q3'', ''Q4'']]"
  "map cid (courts exSwappedOff) = [1, 2]"
  "teamQueue exSwappedOff = [[''Q1'', ''P2'', ''P3'', ''P4'']]"
  "disabledCourtsOnce exSwappedOff = [1]"
  by (simp_all add: exSwappedOff_def returnReplacedToSource_def Let_def exDrop_def emptyCourt_def)

text \<open>
  Claim C6. The part of the claim on switching the flag off fails on a court whose team
  is the empty array. After a player of court 2 has been swapped by drag and drop with a
  player of the queued team, court 1, which had no team and was disabled, has the team
  \<open>[]\<close>: nobody is on it and one team is queued. Switching the flag of court 1 off
  enables the court and seats nobody: the court still has the team \<open>[]\<close> and the queued
  team is still queued.
\<close>

theorem toggleDisableCourtOnce_empty_array:
  "isCourtDisabled exSwappedOff 1
   \<and> map team (courts exSwappedOff) = [Some [], Some [''P1'', ''Q2'', ''Q3'', ''Q4'']]
   \<and> teamQueue exSwappedOff = [[''Q1'', ''P2'', ''P3'', ''P4'']]
   \<and> \<not> isCourtDisabled (toggleDisableCourtOnce 1 exSwappedOff) 1
   \<and> map team (courts (toggleDisableCourtOnce 1 exSwappedOff)) =
        [Some [], Some [''P1'', ''Q2'', ''Q3'', ''Q4'']]
   \<and> teamQueue (toggleDisableCourtOnce 1 exSwappedOff) = [[''Q1'', ''P2'', ''P3'', ''P4'']]"
proof -
  have c: "courts exSwappedOff =
      [\<lparr>cid = 1, cname = None, team = Some []\<rparr>,
       \<lparr>cid = 2, cname = None, team = Some [''P1'', ''Q2'', ''Q3'', ''Q4'']\<rparr>]"
    by (simp add: exSwappedOff_def returnReplacedToSource_def Let_def exDrop_def emptyCourt_def)
  show ?thesis
    by (simp add: toggleDisableCourtOnce_def Let_def isCourtDisabled_def c exSwappedOff_state)
qed

lemma map_cid_renumber: "map cid (map renumber (enumerate k cs)) = [k + 1 ..< k + 1 + length cs]"
proof (induction cs arbitrary: k)
  case Nil
  then show ?case by simp
next
  case (Cons c cs)
  have "[k + 1 ..< k + 1 + length (c # cs)] = (k + 1) # [Suc k + 1 ..< Suc k + 1 + length cs]"
    by (simp add: upt_rec)
  with Cons.IH [of "Suc k"] show ?case by (simp add: renumber_def)
qed

lemma nth_renumber:
  "i < length cs \<Longrightarrow> map renumber (enumerate k cs) ! i = renumber (k + i, cs ! i)"
  by (simp add: nth_enumerate_eq)

lemma applyCourtCount_shrink:
  assumes "n = nat (max 0 (min 32 raw))" "n < length (courts s)"
  shows "applyCourtCount raw s =
        s\<lparr>courts := map renumber (enumerate 0 (take n (courts s))),
          teamQueue := List.map_filter team (drop n (courts s)) @ teamQueue s,
          disabledCourtsOnce := filter (\<lambda>i. i \<le> n) (disabledCourtsOnce s)\<rparr>"
  using assms by (simp add: applyCourtCount_def Let_def)

lemma applyCourtCount_grow:
  assumes "n = nat (max 0 (min 32 raw))" "n > length (courts s)"
  shows "applyCourtCount raw s =
        s\<lparr>courts := courts s @ map newCourt [length (courts s) + 1 ..< n + 1]\<rparr>"
  using assms by (simp add: applyCourtCount_def Let_def)

lemma removed_court_numbers:
  assumes "map cid cs = [1 ..< length cs + 1]"
  shows "map cid (drop n cs) = [n + 1 ..< length cs + 1]"
proof -
  have "map cid (drop n cs) = drop n (map cid cs)" by (simp add: drop_map)
  also have "\<dots> = drop n [1 ..< length cs + 1]" by (simp only: assms)
  also have "\<dots> = [1 + n ..< length cs + 1]" by (rule drop_upt)
  finally show ?thesis by simp
qed

text \<open>
  Claim C5. With n the requested count clamped to 0..32: when n is below the number of
  courts, the first n courts survive with their teams and are numbered 1..n, the courts
  after them are removed (the courts numbered above n, when the courts were numbered
  1..N), the teams of the removed courts are put at the front of the queue in court
  order ahead of the teams queued before, and the disabled list keeps exactly its ids
  that are at most n. When n is above the number of courts, the old courts are kept and
  courts numbered from the old count plus one up to n are appended, each without a team
  and with the default name; they are enabled provided no stale id beyond the old count
  was in the disabled list, which the pruning on every decrease maintains.
\<close>

theorem applyCourtCount_correct:
  "n = nat (max 0 (min 32 raw)) \<Longrightarrow>
     (n < length (courts s) \<longrightarrow>
        length (courts (applyCourtCount raw s)) = n
        \<and> map cid (courts (applyCourtCount raw s)) = [1 ..< n + 1]
        \<and> (\<forall>i < n. team (courts (applyCourtCount raw s) ! i) = team (courts s ! i)
                   \<and> cname (courts (applyCourtCount raw s) ! i) =
                       Some (case cname (courts s ! i) of Some nm \<Rightarrow> nm
                             | None \<Rightarrow> defaultCourtName (i + 1)))
        \<and> (map cid (courts s) = [1 ..< length (courts s) + 1] \<longrightarrow>
              map cid (drop n (courts s)) = [n + 1 ..< length (courts s) + 1])
        \<and> teamQueue (applyCourtCount raw s) =
            List.map_filter team (drop n (courts s)) @ teamQueue s
        \<and> disabledCourtsOnce (applyCourtCount raw s) =
            filter (\<lambda>i. i \<le> n) (disabledCourtsOnce s)
        \<and> (\<forall>i. isCourtDisabled (applyCourtCount raw s) i \<longleftrightarrow> isCourtDisabled s i \<and> i \<le> n))
     \<and> (n > length (courts s) \<longrightarrow>
        length (courts (applyCourtCount raw s)) = n
        \<and> take (length (courts s)) (courts (applyCourtCount raw s)) = courts s
        \<and> (\<forall>i. length (courts s) \<le> i \<and> i < n \<longrightarrow>
              courts (applyCourtCount raw s) ! i =
                \<lparr>cid = i + 1, cname = Some (defaultCourtName (i + 1)), team = None\<rparr>
              \<and> ((\<forall>d \<in> set (disabledCourtsOnce s). d \<le> length (courts s)) \<longrightarrow>
                    \<not> isCourtDisabled (applyCourtCount raw s) (i + 1)))
        \<and> teamQueue (applyCourtCount raw s) = teamQueue s
        \<and> disabledCourtsOnce (applyCourtCount raw s) = disabledCourtsOnce s)"
proof (intro conjI impI)
  assume n: "n = nat (max 0 (min 32 raw))" and lt: "n < length (courts s)"
  note sh = applyCourtCount_shrink [OF n lt]
  show "length (courts (applyCourtCount raw s)) = n" using lt by (simp add: sh)
  show "map cid (courts (applyCourtCount raw s)) = [1 ..< n + 1]"
    using map_cid_renumber [of 0 "take n (courts s)"] lt by (simp add: sh min_def)
  show "\<forall>i < n. team (courts (applyCourtCount raw s) ! i) = team (courts s ! i)
                   \<and> cname (courts (applyCourtCount raw s) ! i) =
                       Some (case cname (courts s ! i) of Some nm \<Rightarrow> nm
                             | None \<Rightarrow> defaultCourtName (i + 1))"
    using lt by (simp add: sh nth_enumerate_eq renumber_def)
  show "teamQueue (applyCourtCount raw s) =
            List.map_filter team (drop n (courts s)) @ teamQueue s" by (simp add: sh)
  show "disabledCourtsOnce (applyCourtCount raw s) =
            filter (\<lambda>i. i \<le> n) (disabledCourtsOnce s)" by (simp add: sh)
  show "\<forall>i. isCourtDisabled (applyCourtCount raw s) i \<longleftrightarrow> isCourtDisabled s i \<and> i \<le> n"
    by (auto simp: sh isCourtDisabled_def)
next
  assume "map cid (courts s) = [1 ..< length (courts s) + 1]"
  then show "map cid (drop n (courts s)) = [n + 1 ..< length (courts s) + 1]"
    by (rule removed_court_numbers)
next
  assume n: "n = nat (max 0 (min 32 raw))" and gt: "n > length (courts s)"
  note gr = applyCourtCount_grow [OF n gt]
  show "length (courts (applyCourtCount raw s)) = n" using gt by (simp add: gr)
  show "take (length (courts s)) (courts (applyCourtCount raw s)) = courts s"
    by (simp add: gr)
  show "\<forall>i. length (courts s) \<le> i \<and> i < n \<longrightarrow>
              courts (applyCourtCount raw s) ! i =
                \<lparr>cid = i + 1, cname = Some (defaultCourtName (i + 1)), team = None\<rparr>
              \<and> ((\<forall>d \<in> set (disabledCourtsOnce s). d \<le> length (courts s)) \<longrightarrow>
                    \<not> isCourtDisabled (applyCourtCount raw s) (i + 1))"
    using gt by (auto simp: gr nth_append newCourt_def isCourtDisabled_def simp del: upt_Suc)
  show "teamQueue (applyCourtCount raw s) = teamQueue s" by (simp add: gr)
  show "disabledCourtsOnce (applyCourtCount raw s) = disabledCourtsOnce s" by (simp add: gr)
qed

theorem handleFinishCourt_correct_witness:
  "playedCount (handleFinishCourt 1 exBusy) ''P1'' = Some (Num 3)
   \<and> playedCount (handleFinishCourt 1 exBusy) ''P2'' = Some (Num 1)
   \<and> playedCount (handleFinishCourt 1 exBusy) ''W'' = None
   \<and> participants (handleFinishCourt 1 exBusy) = [''W'', ''P1'', ''P2'', ''P3'', ''P4'']
   \<and> team (courts (handleFinishCourt 1 exBusy) ! 0) = Some [''S1'', ''S2'', ''S3'', ''S4'']
   \<and> teamQueue (handleFinishCourt 1 exBusy) = []
   \<and> lastTeamSigByPlayer (handleFinishCourt 1 exBusy) ''S3'' = Some ''S1|S2|S3|S4''
   \<and> team (courts (handleFinishCourt 2 exIdle) ! 1) = None
   \<and> participants (handleFinishCourt 2 exIdle) = [''W'', ''Q1'', ''Q2'', ''Q3'', ''Q4'']"
proof -
  have f1: "findIndex (\<lambda>c. cid c = 1) (courts exBusy) = Some 0"
    and t1: "team (courts exBusy ! 0) = Some [''P1'', ''P2'', ''P3'', ''P4'']"
    by (simp_all add: exBusy_def)
  have f2: "findIndex (\<lambda>c. cid c = 2) (courts exIdle) = Some 1"
    and t2: "team (courts exIdle ! 1) = Some [''Q1'', ''Q2'', ''Q3'', ''Q4'']"
    by (simp_all add: exIdle_def exBusy_def)
  have q: "teamQueue exBusy = [[''S1'', ''S2'', ''S3'', ''S4'']]" "\<not> isCourtDisabled exBusy (Suc 0)"
    "playedCount exBusy = [''P1'' \<mapsto> Num 2]" "participants exBusy = [''W'']"
    "teamQueue exIdle = []" "participants exIdle = [''W'']"
    "lastTeamSigByPlayer exBusy = Map.empty"
    by (simp_all add: exIdle_def exBusy_def isCourtDisabled_def)
  have g: "getCount [''P1'' \<mapsto> Num 2] ''P1'' = Num 2" "getCount [''P1'' \<mapsto> Num 2] ''P2'' = Num 0"
    by (simp_all add: getCount_def inherited_def protoNames_def)
  show ?thesis
    using handleFinishCourt_correct [OF f1 t1] handleFinishCourt_correct [OF f2 t2]
    by (simp add: q g teamSignature_def)
qed

text \<open>
  The claim as it stands fails on a court that holds a name twice: at \<open>exTwice\<close> the
  count of the player entered twice goes from 4 to 6. It fails for a member named like a
  member of \<open>Object.prototype\<close>, whose count is no number afterwards, and the seated
  team is not recorded for its member named \<open>__proto__\<close>, though it is for the others.
\<close>

theorem handleFinishCourt_counterexample:
  "team (courts exTwice ! 0) = Some [''A'', ''A'', ''constructor'', ''C'']
   \<and> findIndex (\<lambda>c. cid c = 1) (courts exTwice) = Some 0
   \<and> playedCount exTwice ''A'' = Some (Num 4)
   \<and> playedCount (handleFinishCourt 1 exTwice) ''A'' = Some (Num 6)
   \<and> playedCount (handleFinishCourt 1 exTwice) ''C'' = Some (Num 1)
   \<and> playedCount exTwice ''constructor'' = None
   \<and> playedCount (handleFinishCourt 1 exTwice) ''constructor'' = Some Junk
   \<and> team (courts (handleFinishCourt 1 exTwice) ! 0) = Some [''__proto__'', ''S2'', ''S3'', ''S4'']
   \<and> lastTeamSigByPlayer (handleFinishCourt 1 exTwice) ''__proto__'' = None
   \<and> lastTeamSigByPlayer (handleFinishCourt 1 exTwice) ''S2''
       = Some (teamSignature [''__proto__'', ''S2'', ''S3'', ''S4''])"
  by (simp add: exTwice_def handleFinishCourt_def Let_def isCourtDisabled_def bumpCounts_def
      markTeamAsStarted_def objSet_def inherited_def protoNames_def)

lemma defaultCourtName_4:
  "defaultCourtName 4 = [CHR 0xEC, CHR 0xBD, CHR 0x94, CHR 0xED, CHR 0x8A, CHR 0xB8, CHR '' '', CHR ''4'']"
  by code_simp

theorem applyCourtCount_correct_witness:
  "map cid (courts (applyCourtCount 1 exThree)) = [1]
   \<and> team (courts (applyCourtCount 1 exThree) ! 0) = None
   \<and> teamQueue (applyCourtCount 1 exThree) =
       [[''G2'', ''H2'', ''I2'', ''J2''], [''G3'', ''H3'', ''I3'', ''J3''], [''G0'', ''H0'', ''I0'', ''J0'']]
   \<and> disabledCourtsOnce (applyCourtCount 1 exThree) = []
   \<and> length (courts (applyCourtCount 5 exThree)) = 5
   \<and> courts (applyCourtCount 5 exThree) ! 3 =
       \<lparr>cid = 4, cname = Some (defaultCourtName 4), team = None\<rparr>
   \<and> \<not> isCourtDisabled (applyCourtCount 5 exThree) 4
   \<and> \<not> isCourtDisabled (applyCourtCount 5 exThree) 5"
proof -
  have n1: "(1::nat) = nat (max 0 (min 32 1))" and n5: "(5::nat) = nat (max 0 (min 32 5))"
    by simp_all
  have q: "length (courts exThree) = 3" "disabledCourtsOnce exThree = [3]"
    "teamQueue exThree = [[''G0'', ''H0'', ''I0'', ''J0'']]"
    "team (courts exThree ! 0) = None"
    "List.map_filter team (drop (Suc 0) (courts exThree)) =
       [[''G2'', ''H2'', ''I2'', ''J2''], [''G3'', ''H3'', ''I3'', ''J3'']]"
    by (simp_all add: exThree_def emptyCourt_def List.map_filter_simps)
  have a: "\<forall>d \<in> set (disabledCourtsOnce exThree). d \<le> length (courts exThree)"
    by (simp add: q)
  have shrink: "map cid (courts (applyCourtCount 1 exThree)) = [1]
     \<and> team (courts (applyCourtCount 1 exThree) ! 0) = None
     \<and> teamQueue (applyCourtCount 1 exThree) =
       [[''G2'', ''H2'', ''I2'', ''J2''], [''G3'', ''H3'', ''I3'', ''J3''], [''G0'', ''H0'', ''I0'', ''J0'']]
     \<and> disabledCourtsOnce (applyCourtCount 1 exThree) = []"
    using applyCourtCount_correct [OF n1, of exThree] by (simp add: q)
  have grow: "length (courts (applyCourtCount 5 exThree)) = 5
     \<and> (\<forall>i. 3 \<le> i \<and> i < 5 \<longrightarrow>
           courts (applyCourtCount 5 exThree) ! i =
             \<lparr>cid = i + 1, cname = Some (defaultCourtName (i + 1)), team = None\<rparr>
           \<and> \<not> isCourtDisabled (applyCourtCount 5 exThree) (i + 1))"
    using applyCourtCount_correct [OF n5, of exThree] a by (simp add: q)
  from grow have g: "\<forall>i. 3 \<le> i \<and> i < 5 \<longrightarrow>
           courts (applyCourtCount 5 exThree) ! i =
             \<lparr>cid = i + 1, cname = Some (defaultCourtName (i + 1)), team = None\<rparr>
           \<and> \<not> isCourtDisabled (applyCourtCount 5 exThree) (i + 1)"
    by (rule conjunct2)
  have g3: "courts (applyCourtCount 5 exThree) ! 3 =
       \<lparr>cid = 4, cname = Some (defaultCourtName 4), team = None\<rparr>
     \<and> \<not> isCourtDisabled (applyCourtCount 5 exThree) 4"
    using g [rule_format, of 3] by simp
  have g4: "\<not> isCourtDisabled (applyCourtCount 5 exThree) 5"
    using g [rule_format, of 4] by simp
  from shrink grow g3 g4 show ?thesis by blast
qed

subsection \<open>Registering new names only\<close>










subsection \<open>The seating loops\<close>

lemma seatLoop_no_teams: "seatLoop dis cs [] sigs = (cs, [], sigs)"
  by (induction cs) auto

lemma seatLoop_append:
  "seatLoop dis cs (q @ nt) sg =
     (case seatLoop dis cs q sg of
        (c1, q1, s1) \<Rightarrow>
          (case seatLoop dis c1 nt s1 of (c2, n2, s2) \<Rightarrow> (c2, q1 @ n2, s2)))"
proof (induction cs arbitrary: q sg)
  case Nil
  then show ?case by simp
next
  case (Cons c cs)
  show ?case
  proof (cases q)
    case Nil
    then show ?thesis by (simp add: seatLoop_no_teams split: prod.splits)
  next
    case (Cons x q')
    show ?thesis
    proof (cases "team c = None \<and> cid c \<notin> set dis")
      case True
      then show ?thesis
        using Cons.IH [of q' "markTeamAsStarted x sg"] Cons
        by (simp split: prod.splits)
    next
      case False
      then show ?thesis
        using Cons.IH [of q sg] Cons
        by (auto split: prod.splits)
    qed
  qed
qed

lemma seatLoop_length: "length (fst (seatLoop dis cs ts sg)) = length cs"
  by (induction cs arbitrary: ts sg) (simp_all add: split_beta)

lemma seatLoop_rest:
  "fst (snd (seatLoop dis cs ts sg)) = drop (length (filter (courtFree dis) cs)) ts"
proof (induction cs arbitrary: ts sg)
  case Nil
  then show ?case by simp
next
  case (Cons c cs)
  show ?case
  proof (cases ts)
    case Nil
    then show ?thesis by (simp add: seatLoop_no_teams)
  next
    case (Cons x ts')
    then show ?thesis
      using Cons.IH [of ts' "markTeamAsStarted x sg"] Cons.IH [of ts sg]
      by (auto simp: courtFree_def split: prod.splits)
  qed
qed

lemma seatLoop_nth:
  "i < length cs \<Longrightarrow>
     fst (seatLoop dis cs ts sg) ! i =
       (if courtFree dis (cs ! i) \<and> freeBefore dis cs i < length ts
        then (cs ! i)\<lparr>team := Some (ts ! freeBefore dis cs i)\<rparr>
        else cs ! i)"
proof (induction cs arbitrary: ts sg i)
  case Nil
  then show ?case by simp
next
  case (Cons c cs)
  show ?case
  proof (cases i)
    case 0
    then show ?thesis
      by (cases ts) (auto simp: courtFree_def freeBefore_def seatLoop_no_teams split: prod.splits)
  next
    case (Suc j)
    with Cons.prems have j: "j < length cs" by simp
    show ?thesis
    proof (cases ts)
      case Nil
      then show ?thesis by (simp add: seatLoop_no_teams)
    next
      case (Cons x ts')
      show ?thesis
      proof (cases "courtFree dis c")
        case True
        then show ?thesis
          using Cons.IH [OF j, of ts' "markTeamAsStarted x sg"] Cons Suc
          by (auto simp: courtFree_def freeBefore_def split: prod.splits)
      next
        case False
        then show ?thesis
          using Cons.IH [OF j, of ts sg] Cons Suc
          by (auto simp: courtFree_def freeBefore_def split: prod.splits)
      qed
    qed
  qed
qed

subsection \<open>Team formation conserves the players\<close>

lemma mathRandom_range: "0 \<le> mathRandom g pos" "mathRandom g pos < 1"
  by (simp_all add: mathRandom_def frac_lt_1)

lemma scanWeights_range: "scanWeights r ws i = Some k \<Longrightarrow> i \<le> k \<and> k < i + length ws"
proof (induction ws arbitrary: r i)
  case Nil
  then show ?case by simp
next
  case (Cons w ws)
  show ?case
  proof (cases "leZero (subN r w)")
    case True
    with Cons.prems show ?thesis by simp
  next
    case False
    with Cons.prems have "scanWeights (subN r w) ws (i + 1) = Some k" by simp
    from Cons.IH [OF this] show ?thesis by simp
  qed
qed

lemma floor_pick_less:
  fixes u :: rat
  assumes "0 \<le> u" "u < 1" "0 < n"
  shows "nat \<lfloor>u * of_nat n\<rfloor> < n"
proof -
  have "u * of_nat n < of_nat n" using assms by simp
  then have "\<lfloor>u * of_nat n\<rfloor> < int n" by (simp add: floor_less_iff)
  then show ?thesis using assms(3) by linarith
qed

lemma weightedPickIndex_less:
  assumes "items \<noteq> []" "0 \<le> u" "u < 1"
  shows "weightedPickIndex items w u < length items"
proof (cases "leZero (foldl addN (Some 0) (map w items))")
  case True
  then show ?thesis
    using floor_pick_less [OF assms(2,3), of "length items"] assms(1)
    by (simp add: weightedPickIndex_def Let_def)
next
  case False
  show ?thesis
  proof (cases "scanWeights (mulN (Some u) (foldl addN (Some 0) (map w items))) (map w items) 0")
    case None
    with False assms(1) show ?thesis by (simp add: weightedPickIndex_def Let_def)
  next
    case (Some k)
    from scanWeights_range [OF Some] have "k < length items" by simp
    with False Some show ?thesis by (simp add: weightedPickIndex_def Let_def)
  qed
qed

lemma mset_remove_index:
  "i < length xs \<Longrightarrow> add_mset (xs ! i) (mset (take i xs @ drop (i + 1) xs)) = mset xs"
proof -
  assume "i < length xs"
  then have "xs = take i xs @ xs ! i # drop (Suc i) xs" by (rule id_take_nth_drop)
  then have "mset xs = mset (take i xs @ xs ! i # drop (Suc i) xs)" by simp
  then show ?thesis by simp
qed

lemma sampleLoop_mset:
  "sampleLoop w g pos k pool picked = (pk, rest, pos') \<Longrightarrow>
     mset pk + mset rest = mset picked + mset pool"
proof (induction w g pos k pool picked rule: sampleLoop.induct)
  case (1 w g pos k pool picked)
  show ?case
  proof (cases "length pool > 0 \<and> length picked < k")
    case True
    define idx where "idx = weightedPickIndex pool w (mathRandom g pos)"
    have idx: "idx < length pool"
      unfolding idx_def using True by (intro weightedPickIndex_less mathRandom_range) auto
    have rec: "sampleLoop w g (pos + 1) k (take idx pool @ drop (idx + 1) pool)
                 (picked @ [pool ! idx]) = (pk, rest, pos')"
      using "1.prems" True by (subst (asm) sampleLoop.simps) (simp add: Let_def idx_def)
    from "1.IH" [OF True idx_def rec] mset_remove_index [OF idx]
    show ?thesis by (simp add: add.commute add.left_commute)
  next
    case False
    with "1.prems" show ?thesis by (subst (asm) sampleLoop.simps) auto
  qed
qed


lemma sampleLoop_length:
  "length picked \<le> k \<Longrightarrow> sampleLoop w g pos k pool picked = (pk, rest, pos') \<Longrightarrow>
     length pk = min k (length picked + length pool)"
proof (induction w g pos k pool picked rule: sampleLoop.induct)
  case (1 w g pos k pool picked)
  show ?case
  proof (cases "length pool > 0 \<and> length picked < k")
    case True
    define idx where "idx = weightedPickIndex pool w (mathRandom g pos)"
    have idx: "idx < length pool"
      unfolding idx_def using True by (intro weightedPickIndex_less mathRandom_range) auto
    have rec: "sampleLoop w g (pos + 1) k (take idx pool @ drop (idx + 1) pool)
                 (picked @ [pool ! idx]) = (pk, rest, pos')"
      using "1.prems"(2) True by (subst (asm) sampleLoop.simps) (simp add: Let_def idx_def)
    have le: "length (picked @ [pool ! idx]) \<le> k" using True by simp
    from "1.IH" [OF True idx_def le rec] idx True
    show ?thesis by (simp add: min_def)
  next
    case False
    with "1.prems" show ?thesis by (subst (asm) sampleLoop.simps) auto
  qed
qed

lemma weightedSample_spec:
  assumes "weightedSampleWithoutReplacement g pos pool k w = (pk, rest, pos')"
  shows "mset pk + mset rest = mset pool" and "length pk = min k (length pool)"
  using sampleLoop_mset [of w g pos k pool "[]" pk rest pos']
    sampleLoop_length [of "[]" k w g pos pool pk rest pos'] assms
  by (simp_all add: weightedSampleWithoutReplacement_def)

lemma tryBreak_spec:
  assumes "tryBreak sigs grp tail = Some (grp', tail')"
  shows "mset grp' + mset tail' = mset grp + mset tail"
    and "length grp' = length grp" and "length tail' = length tail"
    and "\<not> isExactRepeatTeam sigs grp'"
proof -
  from assms obtain gi tj where
    f: "find (\<lambda>(gi, tj). \<not> isExactRepeatTeam sigs (grp[gi := tail ! tj]))
          (List.product [0..<length grp] [0..<length tail]) = Some (gi, tj)"
    and g: "grp' = grp[gi := tail ! tj]" and t: "tail' = tail[tj := grp ! gi]"
    by (auto simp: tryBreak_def split: option.splits)
  from f obtain i where i: "i < length (List.product [0..<length grp] [0..<length tail])"
    "(gi, tj) = List.product [0..<length grp] [0..<length tail] ! i"
    and nr: "\<not> isExactRepeatTeam sigs (grp[gi := tail ! tj])"
    unfolding find_Some_iff by auto
  from nth_mem [OF i(1)] i(2)
  have "(gi, tj) \<in> set (List.product [0..<length grp] [0..<length tail])" by simp
  then have gi: "gi < length grp" and tj: "tj < length tail" by auto
  define G where "G = mset grp - {#grp ! gi#}"
  define T where "T = mset tail - {#tail ! tj#}"
  have a: "mset grp = add_mset (grp ! gi) G"
    unfolding G_def using gi by (intro insert_DiffM [symmetric]) simp
  have b: "mset tail = add_mset (tail ! tj) T"
    unfolding T_def using tj by (intro insert_DiffM [symmetric]) simp
  have c: "mset grp' = add_mset (tail ! tj) G"
    unfolding G_def g by (rule mset_update [OF gi])
  have d: "mset tail' = add_mset (grp ! gi) T"
    unfolding T_def t by (rule mset_update [OF tj])
  show "mset grp' + mset tail' = mset grp + mset tail"
    unfolding a b c d by simp
  show "length grp' = length grp" "length tail' = length tail" by (simp_all add: g t)
  show "\<not> isExactRepeatTeam sigs grp'" using nr g by simp
qed

lemma shuffleLoop_mset: "i < length a \<Longrightarrow> mset (fst (shuffleLoop g pos a i)) = mset a"
proof (induction i arbitrary: a pos)
  case 0
  then show ?case by simp
next
  case (Suc i)
  define j where "j = nat \<lfloor>mathRandom g pos * of_nat (Suc i + 1)\<rfloor>"
  have "j < Suc i + 1" unfolding j_def
    by (intro floor_pick_less mathRandom_range) simp
  with Suc.prems have j: "j < length a" by simp
  have sw: "mset (a[Suc i := a ! j, j := a ! Suc i]) = mset a"
    using mset_swap [OF j Suc.prems] .
  have "i < length (a[Suc i := a ! j, j := a ! Suc i])" using Suc.prems by simp
  from Suc.IH [OF this, of "pos + 1"] sw show ?case
    by (simp add: Let_def j_def)
qed

lemma shuffle_mset: "mset (fst (shuffle g pos a)) = mset a"
proof (cases a)
  case Nil
  then show ?thesis by (simp add: shuffle_def)
next
  case (Cons x xs)
  then show ?thesis using shuffleLoop_mset [of "length a - 1" a g pos] by (simp add: shuffle_def)
qed

lemma priorityTeams_spec:
  "priorityTeams sigs pl pool out = (pl', pool', out') \<Longrightarrow>
     mset (concat out') + mset pl' + mset pool' = mset (concat out) + mset pl + mset pool
     \<and> ((\<forall>t \<in> set out. length t = 4) \<longrightarrow> (\<forall>t \<in> set out'. length t = 4))
     \<and> length pl' < 4"
proof (induction sigs pl pool out rule: priorityTeams.induct)
  case (1 sigs pl pool out)
  show ?case
  proof (cases "length pl \<ge> 4")
    case False
    with "1.prems" show ?thesis by (subst (asm) priorityTeams.simps) auto
  next
    case True
    define tm where "tm = take 4 pl"
    define broken where
      "broken = (if isExactRepeatTeam sigs tm then tryBreak sigs tm pool else None)"
    define pool1 where "pool1 = (case broken of Some b \<Rightarrow> snd b | None \<Rightarrow> pool)"
    define tm1 where "tm1 = (case broken of Some b \<Rightarrow> fst b | None \<Rightarrow> tm)"
    have rec: "priorityTeams sigs (drop 4 pl) pool1 (out @ [tm1]) = (pl', pool', out')"
      unfolding pool1_def tm1_def broken_def tm_def using "1.prems" True
      by (subst (asm) priorityTeams.simps) (simp only: if_True Let_def)
    have len: "length tm = 4" using True by (simp add: tm_def)
    have split: "mset tm + mset (drop 4 pl) = mset pl"
      unfolding tm_def mset_append [symmetric] by simp
    have sw: "mset tm1 + mset pool1 = mset tm + mset pool \<and> length tm1 = 4"
    proof (cases broken)
      case None
      then show ?thesis by (simp add: pool1_def tm1_def len)
    next
      case (Some b)
      then have "tryBreak sigs tm pool = Some (fst b, snd b)"
        by (auto simp: broken_def split: if_splits)
      from tryBreak_spec(1,2) [OF this] Some show ?thesis
        by (simp add: pool1_def tm1_def len)
    qed
    note ih0 = "1.IH" [OF True tm_def broken_def rec [unfolded pool1_def tm1_def]]
    have ih': "mset (concat out') + mset pl' + mset pool' =
               mset (concat (out @ [tm1])) + mset (drop 4 pl) + mset pool1
      \<and> ((\<forall>t \<in> set (out @ [tm1]). length t = 4) \<longrightarrow> (\<forall>t \<in> set out'. length t = 4))
      \<and> length pl' < 4"
      using ih0 unfolding pool1_def tm1_def .
    have ih: "mset (concat out') + mset pl' + mset pool' =
               mset (concat (out @ [tm1])) + mset (drop 4 pl) + mset pool1"
      "(\<forall>t \<in> set (out @ [tm1]). length t = 4) \<longrightarrow> (\<forall>t \<in> set out'. length t = 4)"
      "length pl' < 4"
      using ih' by blast+
    have e1: "mset (concat (out @ [tm1])) = mset (concat out) + mset tm1" by simp
    have "mset (concat out') + mset pl' + mset pool' =
            (mset (concat out) + mset tm1) + mset (drop 4 pl) + mset pool1"
      using ih(1) unfolding e1 .
    also have "\<dots> = mset (concat out) + (mset tm1 + mset pool1) + mset (drop 4 pl)"
      by (simp only: ac_simps)
    also have "\<dots> = mset (concat out) + (mset tm + mset pool) + mset (drop 4 pl)"
      by (simp only: conjunct1 [OF sw])
    also have "\<dots> = mset (concat out) + (mset tm + mset (drop 4 pl)) + mset pool"
      by (simp only: ac_simps)
    also have "\<dots> = mset (concat out) + mset pl + mset pool"
      by (simp only: split)
    finally have "mset (concat out') + mset pl' + mset pool' = mset (concat out) + mset pl + mset pool" .
    moreover have "(\<forall>t \<in> set out. length t = 4) \<longrightarrow> (\<forall>t \<in> set out'. length t = 4)"
      using ih(2) sw by simp
    ultimately show ?thesis using ih(3) by blast
  qed
qed


lemma broken_spec:
  assumes "broken = (if isExactRepeatTeam sigs tm then tryBreak sigs tm rest else None)"
  shows "mset (case broken of Some b \<Rightarrow> fst b | None \<Rightarrow> tm)
            + mset (case broken of Some b \<Rightarrow> snd b | None \<Rightarrow> rest) = mset tm + mset rest"
    and "length (case broken of Some b \<Rightarrow> fst b | None \<Rightarrow> tm) = length tm"
proof -
  have "mset (case broken of Some b \<Rightarrow> fst b | None \<Rightarrow> tm)
            + mset (case broken of Some b \<Rightarrow> snd b | None \<Rightarrow> rest) = mset tm + mset rest
        \<and> length (case broken of Some b \<Rightarrow> fst b | None \<Rightarrow> tm) = length tm"
  proof (cases broken)
    case None
    then show ?thesis by simp
  next
    case (Some b)
    then have "tryBreak sigs tm rest = Some (fst b, snd b)"
      using assms by (auto split: if_splits)
    from tryBreak_spec(1,2) [OF this] show ?thesis unfolding Some by simp
  qed
  then show "mset (case broken of Some b \<Rightarrow> fst b | None \<Rightarrow> tm)
            + mset (case broken of Some b \<Rightarrow> snd b | None \<Rightarrow> rest) = mset tm + mset rest"
    and "length (case broken of Some b \<Rightarrow> fst b | None \<Rightarrow> tm) = length tm"
    by blast+
qed


lemma topUp_skip:
  "\<not> (length pl > 0 \<and> length pool \<ge> 4 - length pl) \<Longrightarrow>
     topUp sigs cnt g pos pl pool out = (pl, pool, out, pos)"
  by (auto simp: topUp_def Let_def)

lemma topUp_draw:
  assumes "length pl > 0" "length pool \<ge> 4 - length pl"
    and "weightedSampleWithoutReplacement g pos pool (4 - length pl) (weightOf cnt) = (picked, rest, p1)"
    and "broken = (if isExactRepeatTeam sigs (pl @ picked) then tryBreak sigs (pl @ picked) rest else None)"
  shows "topUp sigs cnt g pos pl pool out =
           ([], (case broken of Some b \<Rightarrow> snd b | None \<Rightarrow> rest),
            out @ [case broken of Some b \<Rightarrow> fst b | None \<Rightarrow> pl @ picked], p1)"
  using assms(1,2,3) unfolding assms(4) by (simp add: topUp_def Let_def)

lemma topUp_spec:
  assumes "topUp sigs cnt g pos pl pool out = (pl', pool', out', pos')" and "length pl < 4"
  shows "mset (concat out') + mset pl' + mset pool' = mset (concat out) + mset pl + mset pool
     \<and> ((\<forall>t \<in> set out. length t = 4) \<longrightarrow> (\<forall>t \<in> set out'. length t = 4))"
proof (cases "length pl > 0 \<and> length pool \<ge> 4 - length pl")
  case False
  from topUp_skip [OF False, of sigs cnt g pos out] assms(1) show ?thesis by simp
next
  case True
  obtain picked rest p1 where smp:
    "weightedSampleWithoutReplacement g pos pool (4 - length pl) (weightOf cnt) = (picked, rest, p1)"
    using prod_cases3 by blast
  define broken where
    "broken = (if isExactRepeatTeam sigs (pl @ picked) then tryBreak sigs (pl @ picked) rest else None)"
  define tm1 where "tm1 = (case broken of Some b \<Rightarrow> fst b | None \<Rightarrow> pl @ picked)"
  define pool1 where "pool1 = (case broken of Some b \<Rightarrow> snd b | None \<Rightarrow> rest)"
  from topUp_draw [OF conjunct1 [OF True] conjunct2 [OF True] smp broken_def, of out] assms(1)
  have res: "pl' = []" "pool' = pool1" "out' = out @ [tm1]"
    unfolding tm1_def pool1_def by simp_all
  from weightedSample_spec [OF smp] True
  have pk: "mset picked + mset rest = mset pool" "length picked = 4 - length pl"
    by (simp_all add: min_def)
  have len: "length (pl @ picked) = 4" using pk(2) assms(2) by simp
  from broken_spec [OF broken_def]
  have sw: "mset tm1 + mset pool1 = mset (pl @ picked) + mset rest" "length tm1 = 4"
    unfolding tm1_def pool1_def len by blast+
  have "mset (concat out') + mset pl' + mset pool' = mset (concat out) + (mset tm1 + mset pool1)"
    unfolding res by (simp only: concat_append mset_append concat.simps append_Nil2 mset.simps
        ac_simps add_0_right add_0_left empty_neutral)
  also have "\<dots> = mset (concat out) + (mset (pl @ picked) + mset rest)"
    by (simp only: sw(1))
  also have "\<dots> = mset (concat out) + mset pl + (mset picked + mset rest)"
    by (simp only: mset_append ac_simps)
  also have "\<dots> = mset (concat out) + mset pl + mset pool"
    by (simp only: pk(1))
  finally have a: "mset (concat out') + mset pl' + mset pool' = mset (concat out) + mset pl + mset pool" .
  have b: "(\<forall>t \<in> set out. length t = 4) \<longrightarrow> (\<forall>t \<in> set out'. length t = 4)"
    unfolding res using sw(2) by simp
  from a b show ?thesis by blast
qed


lemma conserved_emit:
  assumes "conserved (out @ [grp]) tail r" "mset grp + mset tail = mset pool" "length grp = 4"
  shows "conserved out pool r"
proof -
  have "mset (concat (fst r)) + mset (fst (snd r)) = mset (concat (out @ [grp])) + mset tail"
    using assms(1) unfolding conserved_def by blast
  also have "\<dots> = mset (concat out) + (mset grp + mset tail)"
    by (simp only: concat_append mset_append concat.simps append_Nil2 ac_simps)
  also have "\<dots> = mset (concat out) + mset pool" by (simp only: assms(2))
  finally have a: "mset (concat (fst r)) + mset (fst (snd r)) = mset (concat out) + mset pool" .
  have b: "(\<forall>t \<in> set out. length t = 4) \<longrightarrow> (\<forall>t \<in> set (fst r). length t = 4)"
    using assms(1,3) unfolding conserved_def by simp
  have c: "length (fst (snd r)) < 4" using assms(1) unfolding conserved_def by blast
  from a b c show ?thesis unfolding conserved_def by blast
qed

lemma conserved_reshuffle:
  assumes "conserved out pool2 r" "mset pool2 = mset pool"
  shows "conserved out pool r"
  using assms unfolding conserved_def by simp

lemma genericTeams_spec:
  assumes "genericTeams sigs cnt g pos pool out = Some r"
  shows "conserved out pool r"
  using assms
proof (induction sigs cnt g pos pool out r rule: genericTeams.raw_induct [rotated 1, consumes 1])
  case (1 gt sigs cnt g pos pool out r)
  note IH = "1.IH" and body = "1.hyps"
  show ?case
  proof (cases "4 \<le> length pool")
    case False
    with body have "r = (out, pool, pos)" by simp
    with False show ?thesis unfolding conserved_def by simp
  next
    case big: True
    obtain picked rest p1 where smp:
      "weightedSampleWithoutReplacement g pos pool 4 (weightOf cnt) = (picked, rest, p1)"
      using prod_cases3 by blast
    from weightedSample_spec [OF smp] big
    have pk: "mset picked + mset rest = mset pool" "length picked = 4"
      by (simp_all add: min_def)
    show ?thesis
    proof (cases "isExactRepeatTeam sigs picked")
      case False
      with body big smp have "gt sigs cnt g p1 rest (out @ [picked]) = Some r" by simp
      from conserved_emit [OF IH [OF this] pk] show ?thesis .
    next
      case rep: True
      show ?thesis
      proof (cases "tryBreak sigs picked rest")
        case (Some b)
        obtain grp tail where b: "b = (grp, tail)" by (cases b)
        with body big smp rep Some have "gt sigs cnt g p1 tail (out @ [grp]) = Some r" by simp
        moreover from tryBreak_spec(1,2) [OF Some [unfolded b]] pk
        have "mset grp + mset tail = mset pool" "length grp = 4" by simp_all
        ultimately show ?thesis using conserved_emit IH by blast
      next
        case None
        show ?thesis
        proof (cases "4 < length pool")
          case False
          with body big smp rep None have "gt sigs cnt g p1 rest (out @ [picked]) = Some r" by simp
          from conserved_emit [OF IH [OF this] pk] show ?thesis .
        next
          case True
          obtain pool2 p2 where sh: "shuffle g p1 pool = (pool2, p2)" by (cases "shuffle g p1 pool")
          with body big smp rep None True have "gt sigs cnt g p2 pool2 out = Some r" by simp
          moreover have "mset pool2 = mset pool" using shuffle_mset [of g p1 pool] sh by simp
          ultimately show ?thesis using conserved_reshuffle IH by blast
        qed
      qed
    qed
  qed
qed


lemma formTeams_spec:
  assumes "formTeams sigs cnt g pool0 priority0 = Some (pt, ot, rest)"
  shows "mset (concat (pt @ ot)) + mset rest = mset pool0 + mset priority0"
    and "\<forall>t \<in> set (pt @ ot). length t = 4"
proof -
  obtain pl1 pool1 out1 where s1: "priorityTeams sigs priority0 pool0 [] = (pl1, pool1, out1)"
    using prod_cases3 by blast
  obtain pl2 pool2 out2 pos2 where s2: "topUp sigs cnt g 0 pl1 pool1 out1 = (pl2, pool2, out2, pos2)"
    using prod_cases4 by blast
  from assms s1 s2 obtain pool3 pos3 where
    s3: "genericTeams sigs cnt g pos2 pool2 [] = Some (ot, pool3, pos3)"
    and pt: "pt = out2" and rest: "rest = pl2 @ pool3"
    by (auto simp: formTeams_def split: option.splits)
  from priorityTeams_spec [OF s1]
  have a1: "mset (concat out1) + mset pl1 + mset pool1 = mset priority0 + mset pool0"
    and b1: "\<forall>t \<in> set out1. length t = 4" and c1: "length pl1 < 4"
    by simp_all
  from topUp_spec [OF s2 c1] b1
  have a2: "mset (concat out2) + mset pl2 + mset pool2 = mset (concat out1) + mset pl1 + mset pool1"
    and b2: "\<forall>t \<in> set out2. length t = 4"
    by blast+
  from genericTeams_spec [OF s3]
  have a3: "mset (concat ot) + mset pool3 = mset pool2" and b3: "\<forall>t \<in> set ot. length t = 4"
    unfolding conserved_def by simp_all
  have "mset (concat (pt @ ot)) + mset rest
        = mset (concat out2) + mset pl2 + (mset (concat ot) + mset pool3)"
    unfolding pt rest by (simp only: concat_append mset_append ac_simps)
  also have "\<dots> = mset (concat out2) + mset pl2 + mset pool2" by (simp only: a3)
  also have "\<dots> = mset priority0 + mset pool0" by (simp only: a2 a1)
  also have "\<dots> = mset pool0 + mset priority0" by (simp only: ac_simps)
  finally show "mset (concat (pt @ ot)) + mset rest = mset pool0 + mset priority0" .
  show "\<forall>t \<in> set (pt @ ot). length t = 4" using b2 b3 unfolding pt by auto
qed

lemma handleMakeTeams_formed:
  assumes "4 \<le> totalAvailable s" "handleMakeTeams g s = Some s'"
  obtains pt ot where
    "formTeams (lastTeamSigByPlayer s) (playedCount s) g (others s) (eligiblePriorityCarry s)
       = Some (pt, ot, priorityCarry s')"
    "courts s' =
       fst (seatLoop (disabledCourtsOnce s) (courts s)
              (teamQueue s @ pt @ sortByAvgCount (playedCount s) ot) (lastTeamSigByPlayer s))"
    "teamQueue s' =
       fst (snd (seatLoop (disabledCourtsOnce s) (courts s)
              (teamQueue s @ pt @ sortByAvgCount (playedCount s) ot) (lastTeamSigByPlayer s)))"
proof -
  from assms obtain pt ot rest where
    f: "formTeams (lastTeamSigByPlayer s) (playedCount s) g (others s) (eligiblePriorityCarry s)
       = Some (pt, ot, rest)"
    by (auto simp: handleMakeTeams_def split: option.splits)
  let ?new = "pt @ sortByAvgCount (playedCount s) ot"
  obtain c1 q1 s1 where p1:
    "seatLoop (disabledCourtsOnce s) (courts s) (teamQueue s) (lastTeamSigByPlayer s) = (c1, q1, s1)"
    using prod_cases3 by blast
  obtain c2 q2 s2 where p2: "seatLoop (disabledCourtsOnce s) c1 ?new s1 = (c2, q2, s2)"
    using prod_cases3 by blast
  from assms(1) have nt: "\<not> totalAvailable s < 4" by simp
  have "handleMakeTeams g s =
          Some (s\<lparr>priorityCarry := rest, courts := c2, teamQueue := q1 @ q2,
                  participants := mergeRestOnceBack (participants s) (restOnce s),
                  restOnce := [], lastTeamSigByPlayer := s2\<rparr>)"
    unfolding handleMakeTeams_def Let_def f p1 using nt by (simp add: p2)
  with assms(2) have r: "priorityCarry s' = rest" "courts s' = c2" "teamQueue s' = q1 @ q2"
    by auto
  from seatLoop_append [of "disabledCourtsOnce s" "courts s" "teamQueue s" ?new "lastTeamSigByPlayer s"]
    p1 p2
  have sl: "seatLoop (disabledCourtsOnce s) (courts s) (teamQueue s @ ?new) (lastTeamSigByPlayer s)
          = (c2, q1 @ q2, s2)" by simp
  show thesis
  proof (rule that)
    show "formTeams (lastTeamSigByPlayer s) (playedCount s) g (others s) (eligiblePriorityCarry s)
       = Some (pt, ot, priorityCarry s')" using f r(1) by simp
    show "courts s' = fst (seatLoop (disabledCourtsOnce s) (courts s) (teamQueue s @ ?new)
            (lastTeamSigByPlayer s))" unfolding sl using r(2) by simp
    show "teamQueue s' = fst (snd (seatLoop (disabledCourtsOnce s) (courts s) (teamQueue s @ ?new)
            (lastTeamSigByPlayer s)))" unfolding sl using r(3) by simp
  qed
qed

lemma distinct_concat_nth_disjoint:
  assumes "distinct (concat xs)" "i < j" "j < length xs"
  shows "set (xs ! i) \<inter> set (xs ! j) = {}"
proof -
  have "xs = take j xs @ xs ! j # drop (Suc j) xs" using assms(3) by (rule id_take_nth_drop)
  then have "concat xs = concat (take j xs) @ xs ! j @ concat (drop (Suc j) xs)"
    by (metis concat.simps(2) concat_append)
  with assms(1) have d: "set (concat (take j xs)) \<inter> set (xs ! j) = {}" by auto
  have "xs ! i \<in> set (take j xs)" using assms(2,3) by (metis in_set_conv_nth length_take min.absorb2 less_imp_le_nat nth_take)
  then have "set (xs ! i) \<subseteq> set (concat (take j xs))" by auto
  with d show ?thesis by blast
qed

subsection \<open>The retry loop of step 3\<close>

lemma mset_replicate_eq:
  assumes "mset ys = mset (replicate n x)"
  shows "ys = replicate n x"
proof (rule replicate_eqI)
  from assms have "size (mset ys) = size (mset (replicate n x))" by simp
  then show "length ys = n" by simp
next
  fix y assume "y \<in> set ys"
  then have "y \<in># mset ys" by simp
  then have "y \<in># mset (replicate n x)" using assms by simp
  then show "y = x" by (auto split: if_splits)
qed

lemma sample_all_same:
  assumes "weightedSampleWithoutReplacement g pos (replicate n x) 4 w = (picked, rest, p1)" "4 \<le> n"
  shows "picked = replicate 4 x" "rest = replicate (n - 4) x"
proof -
  from weightedSample_spec [OF assms(1)] assms(2)
  have m: "mset picked + mset rest = mset (replicate n x)" and l: "length picked = 4"
    by (simp_all add: min_def)
  from m have "mset (picked @ rest) = mset (replicate n x)" by simp
  then have e: "picked @ rest = replicate n x" by (rule mset_replicate_eq)
  then have "picked = take 4 (replicate n x)" using l by (metis append_eq_conv_conj)
  then show "picked = replicate 4 x" using assms(2) by (simp add: min_def)
  from e have "rest = drop 4 (replicate n x)" using l by (metis append_eq_conv_conj)
  then show "rest = replicate (n - 4) x" by simp
qed

lemma tryBreak_all_same:
  assumes "isExactRepeatTeam sigs (replicate 4 x)"
  shows "tryBreak sigs (replicate 4 x) (replicate m x) = None"
proof -
  have "\<not> (\<exists>p. p \<in> set (List.product [0..<length (replicate 4 x)] [0..<length (replicate m x)])
          \<and> (case p of (gi, tj) \<Rightarrow>
                \<not> isExactRepeatTeam sigs ((replicate 4 x)[gi := replicate m x ! tj])))"
  proof
    assume "\<exists>p. p \<in> set (List.product [0..<length (replicate 4 x)] [0..<length (replicate m x)])
          \<and> (case p of (gi, tj) \<Rightarrow>
                \<not> isExactRepeatTeam sigs ((replicate 4 x)[gi := replicate m x ! tj]))"
    then obtain gi tj where gi: "gi < 4" and tj: "tj < m"
      and nr: "\<not> isExactRepeatTeam sigs ((replicate 4 x)[gi := replicate m x ! tj])"
      by auto
    from tj have "replicate m x ! tj = x" by simp
    moreover have "(replicate 4 x)[gi := x] = replicate 4 x"
      using gi by (intro list_update_same_conv [THEN iffD2]) simp_all
    ultimately show False using nr assms by simp
  qed
  then have "find (\<lambda>(gi, tj). \<not> isExactRepeatTeam sigs ((replicate 4 x)[gi := replicate m x ! tj]))
          (List.product [0..<length (replicate 4 x)] [0..<length (replicate m x)]) = None"
    unfolding find_None_iff .
  then show ?thesis unfolding tryBreak_def by simp
qed

lemma genericTeams_all_same_no_result:
  assumes "genericTeams sigs cnt g pos pool out = Some r"
  shows "\<not> (\<exists>n\<ge>5. pool = replicate n x \<and> isExactRepeatTeam sigs (replicate 4 x))"
  using assms
proof (induction sigs cnt g pos pool out r rule: genericTeams.raw_induct [rotated 1, consumes 1])
  case (1 gt sigs cnt g pos pool out r)
  note IH = "1.IH" and body = "1.hyps"
  show ?case
  proof
    assume "\<exists>n\<ge>5. pool = replicate n x \<and> isExactRepeatTeam sigs (replicate 4 x)"
    then obtain n where n: "5 \<le> n" and pool: "pool = replicate n x"
      and rep: "isExactRepeatTeam sigs (replicate 4 x)" by blast
    obtain picked rest p1 where smp:
      "weightedSampleWithoutReplacement g pos pool 4 (weightOf cnt) = (picked, rest, p1)"
      using prod_cases3 by blast
    from sample_all_same [OF smp [unfolded pool]] n
    have pk: "picked = replicate 4 x" "rest = replicate (n - 4) x" by simp_all
    have tb: "tryBreak sigs picked rest = None" unfolding pk using rep by (rule tryBreak_all_same)
    obtain pool2 p2 where sh: "shuffle g p1 pool = (pool2, p2)" by (cases "shuffle g p1 pool")
    have "mset pool2 = mset (replicate n x)"
      using shuffle_mset [of g p1 pool] sh pool by simp
    then have pool2: "pool2 = replicate n x" by (rule mset_replicate_eq)
    have len: "4 \<le> length pool" "4 < length pool" using n pool by simp_all
    from body len smp rep tb sh have "gt sigs cnt g p2 pool2 out = Some r"
      by (simp add: pk)
    from IH [OF this] n pool2 rep show False by blast
  qed
qed

lemma genericTeams_diverges:
  assumes "5 \<le> n" "isExactRepeatTeam sigs (replicate 4 x)"
  shows "genericTeams sigs cnt g pos (replicate n x) out = None"
proof (cases "genericTeams sigs cnt g pos (replicate n x) out")
  case None
  then show ?thesis .
next
  case (Some r)
  from genericTeams_all_same_no_result [OF Some, of x] assms show ?thesis by blast
qed


lemma exHang_facts:
  "totalAvailable exHang = 5"
  "others exHang = replicate 5 ''A''"
  "eligiblePriorityCarry exHang = []"
  "isExactRepeatTeam (lastTeamSigByPlayer exHang) (replicate 4 ''A'')"
  by (simp_all add: totalAvailable_def others_def eligibleParticipants_def eligiblePriorityCarry_def
      exHang_def numeral_eq_Suc isExactRepeatTeam_def isExactRepeatTeamWithMap_def teamSignature_def)

lemma formTeams_no_priority:
  "formTeams sigs cnt g pool [] =
     (case genericTeams sigs cnt g 0 pool [] of
        None \<Rightarrow> None
      | Some (otherTeamsOut, pool3, pos3) \<Rightarrow> Some ([], otherTeamsOut, pool3))"
proof -
  have "priorityTeams sigs [] pool [] = ([], pool, [])"
    by (subst priorityTeams.simps) simp
  moreover have "topUp sigs cnt g 0 [] pool [] = ([], pool, [], 0)"
    by (simp add: topUp_def)
  ultimately show ?thesis by (simp add: formTeams_def split: option.splits)
qed

text \<open>
  Claim C8 fails on the code. With five entries of one name in the waiting pool, and that
  name's last signature the signature of four such entries, every draw of step 3 is the
  same repeated team, no swap changes it, more than four players remain, and the loop
  reshuffles and starts over for ever: the run does not return, whatever the draws.
  (For pools free of duplicate names the loop always returns, lemma
  \<open>handleMakeTeams_returns\<close> below.)
\<close>

theorem handleMakeTeams_hangs: "handleMakeTeams g exHang = None"
proof -
  have "genericTeams (lastTeamSigByPlayer exHang) (playedCount exHang) g 0 (replicate 5 ''A'') [] = None"
    using exHang_facts(4) by (intro genericTeams_diverges) simp_all
  then have "formTeams (lastTeamSigByPlayer exHang) (playedCount exHang) g (others exHang)
      (eligiblePriorityCarry exHang) = None"
    by (simp add: exHang_facts formTeams_no_priority)
  then show ?thesis by (simp add: handleMakeTeams_def exHang_facts(1))
qed

text \<open>Pools free of duplicate names: the loop returns.\<close>

lemma join_length:
  "xs \<noteq> [] \<Longrightarrow> length (join sep xs) = sum_list (map length xs) + length sep * (length xs - 1)"
proof (induction sep xs rule: join.induct)
  case (1 sep)
  then show ?case by simp
next
  case (2 sep x)
  then show ?case by simp
next
  case (3 sep x y ys)
  then show ?case by simp
qed

lemma join_inj_same_length:
  assumes "\<forall>x \<in> set xs. length x = L" "\<forall>y \<in> set ys. length y = L" "length xs = length ys"
    and "join sep xs = join sep ys"
  shows "xs = ys"
  using assms
proof (induction sep xs arbitrary: ys rule: join.induct)
  case (1 sep)
  then show ?case by simp
next
  case (2 sep x)
  then obtain y where "ys = [y]" by (cases ys) auto
  with 2 show ?case by simp
next
  case (3 sep x x2 xs)
  then obtain y y2 ys' where ys: "ys = y # y2 # ys'"
    by (cases ys; cases "tl ys") auto
  from "3.prems"(1,2) ys have l: "length x = length y" by simp
  from "3.prems"(4) ys have "x @ sep @ join sep (x2 # xs) = y @ sep @ join sep (y2 # ys')" by simp
  with l have xy: "x = y" and r: "join sep (x2 # xs) = join sep (y2 # ys')" by simp_all
  from "3.IH" [of "y2 # ys'"] "3.prems" ys r have "x2 # xs = y2 # ys'" by simp
  with xy ys show ?case by simp
qed

lemma sum_list_length_sort: "sum_list (map length (sort (t :: string list))) = sum_list (map length t)"
proof -
  have "mset (map length (sort t)) = mset (map length t)" by simp
  then have "sum_mset (mset (map length (sort t))) = sum_mset (mset (map length t))" by simp
  then show ?thesis unfolding sum_mset_sum_list .
qed

lemma teamSignature_length:
  "t \<noteq> [] \<Longrightarrow> length (teamSignature t) = sum_list (map length t) + (length t - 1)"
proof -
  assume "t \<noteq> []"
  then have "sort t \<noteq> []" by (metis length_sort length_0_conv)
  from join_length [OF this, of "''|''"] show ?thesis
    by (simp add: teamSignature_def sum_list_length_sort)
qed

lemma sum_list_map_update:
  "i < length xs \<Longrightarrow>
     sum_list (map f (xs[i := y])) + f (xs ! i) = sum_list (map f xs) + (f y :: nat)"
proof (induction xs arbitrary: i)
  case Nil
  then show ?case by simp
next
  case (Cons x xs)
  then show ?case by (cases i) auto
qed

text \<open>A repeated team stays a repeat under a swap only if the signature is unchanged.\<close>

lemma repeat_swap_signature:
  assumes rep: "isExactRepeatTeam sigs picked" and sw: "isExactRepeatTeam sigs (picked[gi := t])"
    and gi: "gi < 4"
  shows "teamSignature (picked[gi := t]) = teamSignature picked"
proof -
  from rep have len: "length picked = 4"
    and all: "\<forall>n \<in> set picked. sigs n = Some (teamSignature picked)"
    by (simp_all add: isExactRepeatTeam_def isExactRepeatTeamWithMap_def Let_def list_all_iff
        split: if_splits)
  from sw have all': "\<forall>n \<in> set (picked[gi := t]). sigs n = Some (teamSignature (picked[gi := t]))"
    by (simp add: isExactRepeatTeam_def isExactRepeatTeamWithMap_def Let_def list_all_iff
        split: if_splits)
  define k where "k = (if gi = 0 then 1 else 0 :: nat)"
  have k: "k < 4" "k \<noteq> gi" by (simp_all add: k_def)
  have "picked ! k \<in> set picked" using k len by simp
  with all have a: "sigs (picked ! k) = Some (teamSignature picked)" by blast
  have "(picked[gi := t]) ! k = picked ! k" using k by simp
  moreover have "(picked[gi := t]) ! k \<in> set (picked[gi := t])"
    by (rule nth_mem) (simp add: k len)
  ultimately have "picked ! k \<in> set (picked[gi := t])" by simp
  with all' have "sigs (picked ! k) = Some (teamSignature (picked[gi := t]))" by blast
  with a show ?thesis by simp
qed

lemma unbreakable_needs_member:
  assumes rep: "isExactRepeatTeam sigs picked"
    and all: "\<forall>gi < 4. isExactRepeatTeam sigs (picked[gi := t])"
  shows "t \<in> set picked"
proof -
  from rep have len: "length picked = 4"
    by (simp add: isExactRepeatTeam_def isExactRepeatTeamWithMap_def split: if_splits)
  have sig: "teamSignature (picked[gi := t]) = teamSignature picked" if "gi < 4" for gi
    using repeat_swap_signature [OF rep _ that] all that by blast
  have eqlen: "length (picked ! gi) = length t" if "gi < 4" for gi
  proof -
    have "length (teamSignature (picked[gi := t])) = length (teamSignature picked)"
      using sig [OF that] by simp
    moreover have ne: "picked \<noteq> []" "picked[gi := t] \<noteq> []" using len by auto
    ultimately have "sum_list (map length (picked[gi := t])) = sum_list (map length picked)"
      using len by (simp add: teamSignature_length [OF ne(1)] teamSignature_length [OF ne(2)])
    with sum_list_map_update [of gi picked length t] that len show ?thesis by simp
  qed
  have L: "\<forall>x \<in> set picked. length x = length t"
    using eqlen len by (auto simp: in_set_conv_nth)
  have L': "\<forall>x \<in> set (picked[0 := t]). length x = length t"
    using L by (auto dest: set_update_subset_insert [THEN subsetD])
  have "join ''|'' (sort (picked[0 := t])) = join ''|'' (sort picked)"
    using sig [of 0] by (simp add: teamSignature_def)
  then have "sort (picked[0 := t]) = sort picked"
    using L L' by (intro join_inj_same_length [where L = "length t" and sep = "''|''"]) simp_all
  then have "mset (sort (picked[0 := t])) = mset (sort picked)" by simp
  then have "mset (picked[0 := t]) = mset picked" by simp
  moreover have "t \<in># mset (picked[0 := t])" using len by (simp add: mset_update)
  ultimately show ?thesis by simp
qed

lemma tryBreak_succeeds:
  assumes rep: "isExactRepeatTeam sigs picked" and ne: "rest \<noteq> []"
    and disj: "set picked \<inter> set rest = {}"
  shows "tryBreak sigs picked rest \<noteq> None"
proof
  assume "tryBreak sigs picked rest = None"
  then have none: "find (\<lambda>(gi, tj). \<not> isExactRepeatTeam sigs (picked[gi := rest ! tj]))
          (List.product [0..<length picked] [0..<length rest]) = None"
    by (auto simp: tryBreak_def split: option.splits prod.splits)
  from rep have len: "length picked = 4"
    by (simp add: isExactRepeatTeam_def isExactRepeatTeamWithMap_def split: if_splits)
  have "\<forall>gi < 4. isExactRepeatTeam sigs (picked[gi := rest ! 0])"
  proof (intro allI impI)
    fix gi :: nat assume "gi < 4"
    then have "(gi, 0) \<in> set (List.product [0..<length picked] [0..<length rest])"
      using len ne by simp
    with none show "isExactRepeatTeam sigs (picked[gi := rest ! 0])"
      unfolding find_None_iff by blast
  qed
  from unbreakable_needs_member [OF rep this] have "rest ! 0 \<in> set picked" .
  moreover have "rest ! 0 \<in> set rest" using ne by simp
  ultimately show False using disj by blast
qed


lemma genericTeams_returns:
  "distinct pool \<Longrightarrow> \<exists>r. genericTeams sigs cnt g pos pool out = Some r"
proof (induction "length pool" arbitrary: pool pos out rule: less_induct)
  case less
  note step = genericTeams.simps [of sigs cnt g pos pool out]
  show ?case
  proof (cases "4 \<le> length pool")
    case False
    with step show ?thesis by simp
  next
    case big: True
    obtain picked rest p1 where smp:
      "weightedSampleWithoutReplacement g pos pool 4 (weightOf cnt) = (picked, rest, p1)"
      using prod_cases3 by blast
    from weightedSample_spec [OF smp] big
    have pk: "mset picked + mset rest = mset pool" "length picked = 4"
      by (simp_all add: min_def)
    from pk(1) have "mset (picked @ rest) = mset pool" by simp
    with less.prems have d: "distinct (picked @ rest)" using mset_eq_imp_distinct_iff by blast
    from pk(1) have "size (mset picked + mset rest) = size (mset pool)" by simp
    with pk(2) have lr: "length rest + 4 = length pool" by simp
    then have shorter: "length rest < length pool" by simp
    from d have dr: "distinct rest" by simp
    show ?thesis
    proof (cases "isExactRepeatTeam sigs picked")
      case False
      with step big smp have "genericTeams sigs cnt g pos pool out
          = genericTeams sigs cnt g p1 rest (out @ [picked])" by simp
      with less.hyps [OF shorter dr] show ?thesis by simp
    next
      case rep: True
      show ?thesis
      proof (cases "tryBreak sigs picked rest")
        case (Some b)
        obtain grp tail where b: "b = (grp, tail)" by (cases b)
        from tryBreak_spec(1,3) [OF Some [unfolded b]]
        have m: "mset grp + mset tail = mset picked + mset rest" and lt: "length tail = length rest"
          by simp_all
        from m have "mset (grp @ tail) = mset (picked @ rest)" by simp
        with d have "distinct (grp @ tail)" using mset_eq_imp_distinct_iff by blast
        then have dt: "distinct tail" by simp
        from step big smp rep Some b have "genericTeams sigs cnt g pos pool out
          = genericTeams sigs cnt g p1 tail (out @ [grp])" by simp
        with less.hyps [of tail, OF _ dt] lt shorter show ?thesis by simp
      next
        case None
        show ?thesis
        proof (cases "4 < length pool")
          case True
          with lr have "rest \<noteq> []" by auto
          moreover from d have "set picked \<inter> set rest = {}" by simp
          ultimately have "tryBreak sigs picked rest \<noteq> None"
            using tryBreak_succeeds [OF rep] by blast
          with None show ?thesis by simp
        next
          case False
          with step big smp rep None have "genericTeams sigs cnt g pos pool out
            = genericTeams sigs cnt g p1 rest (out @ [picked])" by simp
          with less.hyps [OF shorter dr] show ?thesis by simp
        qed
      qed
    qed
  qed
qed

lemma distinct_part:
  assumes "mset as + mset bs + mset cs = mset ds" "distinct ds"
  shows "distinct cs"
proof -
  from assms(1) have "mset (as @ bs @ cs) = mset ds" by (simp add: ac_simps)
  with assms(2) have "distinct (as @ bs @ cs)" using mset_eq_imp_distinct_iff by blast
  then show ?thesis by simp
qed

lemma formTeams_returns:
  assumes "distinct (pool0 @ priority0)"
  shows "\<exists>r. formTeams sigs cnt g pool0 priority0 = Some r"
proof -
  obtain pl1 pool1 out1 where s1: "priorityTeams sigs priority0 pool0 [] = (pl1, pool1, out1)"
    using prod_cases3 by blast
  obtain pl2 pool2 out2 pos2 where s2: "topUp sigs cnt g 0 pl1 pool1 out1 = (pl2, pool2, out2, pos2)"
    using prod_cases4 by blast
  from priorityTeams_spec [OF s1]
  have a1: "mset (concat out1) + mset pl1 + mset pool1 = mset (concat []) + mset priority0 + mset pool0"
    and c1: "length pl1 < 4" by blast+
  from topUp_spec [OF s2 c1]
  have a2: "mset (concat out2) + mset pl2 + mset pool2 = mset (concat out1) + mset pl1 + mset pool1"
    by blast
  have "mset (concat out2) + mset pl2 + mset pool2 = mset (pool0 @ priority0)"
    unfolding a2 a1 by (simp add: ac_simps)
  from distinct_part [OF this assms] have "distinct pool2" .
  from genericTeams_returns [OF this, of sigs cnt g pos2 "[]"]
  obtain r where r: "genericTeams sigs cnt g pos2 pool2 [] = Some r" by blast
  obtain ot pool3 pos3 where "r = (ot, pool3, pos3)" using prod_cases3 by blast
  with r s1 s2 show ?thesis by (simp add: formTeams_def)
qed

text \<open>
  When neither eligible list has a name twice, a repeated team drawn while players remain
  can always be broken by the first swap tried, the retry branch is never taken, and the
  formation run returns whatever the draws.
\<close>

lemma handleMakeTeams_returns:
  assumes "distinct (eligibleParticipants s)" "distinct (eligiblePriorityCarry s)"
  shows "\<exists>s'. handleMakeTeams g s = Some s'"
proof (cases "totalAvailable s < 4")
  case True
  then show ?thesis by (simp add: handleMakeTeams_def)
next
  case False
  have "distinct (others s @ eligiblePriorityCarry s)"
    using assms unfolding others_def by auto
  from formTeams_returns [OF this, of "lastTeamSigByPlayer s" "playedCount s" g]
  obtain r where r: "formTeams (lastTeamSigByPlayer s) (playedCount s) g (others s)
      (eligiblePriorityCarry s) = Some r" by blast
  obtain pt ot rest where "r = (pt, ot, rest)" using prod_cases3 by blast
  with r False show ?thesis
    by (simp add: handleMakeTeams_def Let_def split: prod.splits)
qed

subsection \<open>Seating order and conservation of a formation run\<close>

lemma foldl_counts:
  "\<forall>n \<in> set t. getCount cnt n \<noteq> Junk \<Longrightarrow>
   foldl (\<lambda>acc n. case (acc, getCount cnt n) of (Some a, Num c) \<Rightarrow> Some (a + c) | _ \<Rightarrow> None)
       (Some a) t = Some (a + sum_list (map (numCount cnt) t))"
proof (induction t arbitrary: a)
  case Nil
  show ?case by simp
next
  case (Cons x xs)
  from Cons.prems obtain c where c: "getCount cnt x = Num c" by (cases "getCount cnt x") auto
  from Cons.prems have "\<forall>n \<in> set xs. getCount cnt n \<noteq> Junk" by simp
  from Cons.IH [OF this, of "a + c"] c show ?case by (simp add: numCount_def)
qed

lemma avgCount_mean:
  assumes "t \<noteq> []" "\<forall>n \<in> set t. getCount cnt n \<noteq> Junk"
  shows "avgCount cnt t = Fin (meanCount cnt t)"
  using assms(1) foldl_counts [OF assms(2), of 0] by (simp add: avgCount_def meanCount_def)

lemma mset_insertBy: "mset (insertBy gt x ys) = add_mset x (mset ys)"
  by (induction ys) simp_all

lemma mset_sortBy: "mset (sortBy gt xs) = mset xs"
  by (induction xs) (simp_all add: sortBy_def mset_insertBy)

lemma mset_sortByAvgCount: "mset (sortByAvgCount cnt ts) = mset ts"
  by (simp add: sortByAvgCount_def mset_sortBy)

lemma insertBy_insort_key:
  fixes k :: "'a \<Rightarrow> 'b :: linorder"
  shows "\<forall>y \<in> set ys. gt x y = (k x > k y) \<Longrightarrow> insertBy gt x ys = insort_key k x ys"
  by (induction ys) auto

lemma sortBy_sort_key:
  fixes k :: "'a \<Rightarrow> 'b :: linorder"
  shows "\<forall>x \<in> set xs. \<forall>y \<in> set xs. gt x y = (k x > k y) \<Longrightarrow> sortBy gt xs = sort_key k xs"
proof (induction xs)
  case Nil
  show ?case by (simp add: sortBy_def)
next
  case (Cons x xs)
  from Cons.prems have "\<forall>a \<in> set xs. \<forall>b \<in> set xs. gt a b = (k a > k b)" by simp
  from Cons.IH [OF this] have ih: "sortBy gt xs = sort_key k xs" .
  from Cons.prems have "\<forall>y \<in> set (sort_key k xs). gt x y = (k x > k y)" by simp
  from insertBy_insort_key [where k = k and gt = gt, OF this] ih show ?case
    by (simp add: sortBy_def)
qed

text \<open>
  When no team is empty and every member's count reads as a number, the sort is the
  stable sort by the arithmetic mean.
\<close>

lemma sorted_by_mean:
  assumes "\<forall>t \<in> set ts. t \<noteq> [] \<and> (\<forall>n \<in> set t. getCount cnt n \<noteq> Junk)"
  shows "sortByAvgCount cnt ts = sort_key (meanCount cnt) ts"
    and "sorted (map (meanCount cnt) (sortByAvgCount cnt ts))"
proof -
  have "\<forall>a \<in> set ts. \<forall>b \<in> set ts.
          greaterAvg (avgCount cnt a) (avgCount cnt b) = (meanCount cnt a > meanCount cnt b)"
    using assms by (simp add: avgCount_mean)
  then show eq: "sortByAvgCount cnt ts = sort_key (meanCount cnt) ts"
    unfolding sortByAvgCount_def by (rule sortBy_sort_key)
  show "sorted (map (meanCount cnt) (sortByAvgCount cnt ts))"
    unfolding eq by (rule sorted_sort_key)
qed

lemma handleMakeTeams_seating_aux:
  "4 \<le> totalAvailable s \<Longrightarrow> handleMakeTeams g s = Some s' \<Longrightarrow>
   \<exists>priorityTeamsOut otherTeamsOut sortedOther seating.
     formTeams (lastTeamSigByPlayer s) (playedCount s) g (others s) (eligiblePriorityCarry s)
       = Some (priorityTeamsOut, otherTeamsOut, priorityCarry s')
     \<and> sortedOther = sortByAvgCount (playedCount s) otherTeamsOut
     \<and> mset sortedOther = mset otherTeamsOut
     \<and> ((\<forall>n \<in> set (others s) \<union> set (eligiblePriorityCarry s). getCount (playedCount s) n \<noteq> Junk)
          \<longrightarrow> sorted (map (meanCount (playedCount s)) sortedOther))
     \<and> seating = teamQueue s @ priorityTeamsOut @ sortedOther
     \<and> length (courts s') = length (courts s)
     \<and> (\<forall>i < length (courts s).
           courts s' ! i =
             (if courtFree (disabledCourtsOnce s) (courts s ! i)
                 \<and> freeBefore (disabledCourtsOnce s) (courts s) i < length seating
              then (courts s ! i)\<lparr>team := Some (seating ! freeBefore (disabledCourtsOnce s) (courts s) i)\<rparr>
              else courts s ! i))
     \<and> teamQueue s' = drop (length (filter (courtFree (disabledCourtsOnce s)) (courts s))) seating"
proof -
  assume enough: "4 \<le> totalAvailable s" and run: "handleMakeTeams g s = Some s'"
  from handleMakeTeams_formed [OF enough run] obtain pt ot where
    f: "formTeams (lastTeamSigByPlayer s) (playedCount s) g (others s) (eligiblePriorityCarry s)
       = Some (pt, ot, priorityCarry s')"
    and c: "courts s' =
       fst (seatLoop (disabledCourtsOnce s) (courts s)
              (teamQueue s @ pt @ sortByAvgCount (playedCount s) ot) (lastTeamSigByPlayer s))"
    and q: "teamQueue s' =
       fst (snd (seatLoop (disabledCourtsOnce s) (courts s)
              (teamQueue s @ pt @ sortByAvgCount (playedCount s) ot) (lastTeamSigByPlayer s)))"
    by blast
  let ?so = "sortByAvgCount (playedCount s) ot"
  let ?seq = "teamQueue s @ pt @ ?so"
  have srt: "sorted (map (meanCount (playedCount s)) ?so)"
    if num: "\<forall>n \<in> set (others s) \<union> set (eligiblePriorityCarry s). getCount (playedCount s) n \<noteq> Junk"
  proof -
    have "\<forall>t \<in> set ot. t \<noteq> [] \<and> (\<forall>n \<in> set t. getCount (playedCount s) n \<noteq> Junk)"
    proof (intro ballI conjI)
      fix t assume t: "t \<in> set ot"
      with formTeams_spec(2) [OF f] have "length t = 4" by simp
      then show "t \<noteq> []" by auto
      fix n assume "n \<in> set t"
      with t have "n \<in># mset (concat (pt @ ot)) + mset (priorityCarry s')" by auto
      then have "n \<in># mset (others s) + mset (eligiblePriorityCarry s)"
        unfolding formTeams_spec(1) [OF f] .
      then have "n \<in> set (others s) \<union> set (eligiblePriorityCarry s)" by simp
      with num show "getCount (playedCount s) n \<noteq> Junk" by blast
    qed
    then show ?thesis by (rule sorted_by_mean(2))
  qed
  have ms: "mset ?so = mset ot" by (rule mset_sortByAvgCount)
  have len: "length (courts s') = length (courts s)" unfolding c by (rule seatLoop_length)
  have nth: "\<forall>i < length (courts s).
           courts s' ! i =
             (if courtFree (disabledCourtsOnce s) (courts s ! i)
                 \<and> freeBefore (disabledCourtsOnce s) (courts s) i < length ?seq
              then (courts s ! i)\<lparr>team := Some (?seq ! freeBefore (disabledCourtsOnce s) (courts s) i)\<rparr>
              else courts s ! i)"
    unfolding c using seatLoop_nth by blast
  have rest: "teamQueue s' = drop (length (filter (courtFree (disabledCourtsOnce s)) (courts s))) ?seq"
    unfolding q by (rule seatLoop_rest)
  from f srt ms len nth rest show ?thesis by blast
qed


text \<open>
  The seating of a formation run in terms of the courts that can take a team, which are
  the courts whose team is \<open>undefined\<close> and that are not disabled. A run with at least
  four eligible players returns when neither eligible list has a name twice, and whenever
  it returns the teams are seated from one sequence: the queue as it was, oldest first,
  then the priority teams of steps 1 and 2, then the generic teams of step 3 in the order
  of the sort, which is by ascending arithmetic mean of the members' played counts when
  the count of every eligible player reads as a number. Walking the courts in their
  order, the court that can take a team and has \<open>k\<close> such courts before it receives the
  \<open>k\<close>-th team of the sequence, or stays as it is when the sequence is shorter; every
  other court is unchanged, a court with the team \<open>[]\<close> among them. The queue afterwards
  is the sequence without the teams seated, so the new teams left over stand after the
  old queue entries left over.
\<close>

lemma handleMakeTeams_seating:
  "4 \<le> totalAvailable s \<Longrightarrow>
   (distinct (eligibleParticipants s) \<and> distinct (eligiblePriorityCarry s) \<longrightarrow>
      (\<exists>s'. handleMakeTeams g s = Some s'))
   \<and> (\<forall>s'. handleMakeTeams g s = Some s' \<longrightarrow>
     (\<exists>priorityTeamsOut otherTeamsOut sortedOther seating.
       formTeams (lastTeamSigByPlayer s) (playedCount s) g (others s) (eligiblePriorityCarry s)
         = Some (priorityTeamsOut, otherTeamsOut, priorityCarry s')
       \<and> sortedOther = sortByAvgCount (playedCount s) otherTeamsOut
       \<and> mset sortedOther = mset otherTeamsOut
       \<and> ((\<forall>n \<in> set (others s) \<union> set (eligiblePriorityCarry s). getCount (playedCount s) n \<noteq> Junk)
          \<longrightarrow> sorted (map (meanCount (playedCount s)) sortedOther))
       \<and> seating = teamQueue s @ priorityTeamsOut @ sortedOther
       \<and> length (courts s') = length (courts s)
       \<and> (\<forall>i < length (courts s).
             courts s' ! i =
               (if courtFree (disabledCourtsOnce s) (courts s ! i)
                   \<and> freeBefore (disabledCourtsOnce s) (courts s) i < length seating
                then (courts s ! i)\<lparr>team := Some (seating ! freeBefore (disabledCourtsOnce s) (courts s) i)\<rparr>
                else courts s ! i))
       \<and> teamQueue s' = drop (length (filter (courtFree (disabledCourtsOnce s)) (courts s))) seating))"
  using handleMakeTeams_returns [of s g] handleMakeTeams_seating_aux [of s g] by blast

lemma exRun_enough: "4 \<le> totalAvailable exRun"
  by (simp add: totalAvailable_def eligibleParticipants_def eligiblePriorityCarry_def exRun_def)

lemma exRun_distinct:
  "distinct (eligibleParticipants exRun)" "distinct (eligiblePriorityCarry exRun)"
  by (simp_all add: eligibleParticipants_def eligiblePriorityCarry_def exRun_def)

lemma exRun_result:
  "map_option (map team \<circ> courts) (handleMakeTeams zeroDraws exRun) =
     Some [Some [''P1'', ''P2'', ''P3'', ''P4''], Some [''Q1'', ''Q2'', ''Q3'', ''Q4''], None,
           Some [''X'', ''A'', ''B'', ''C'']]"
  "map_option teamQueue (handleMakeTeams zeroDraws exRun) =
     Some [[''H'', ''I'', ''J'', ''K''], [''D'', ''E'', ''F'', ''G'']]"
  "map_option priorityCarry (handleMakeTeams zeroDraws exRun) = Some []"
  by code_simp+

lemma handleMakeTeams_seating_example:
  "\<exists>s'. handleMakeTeams zeroDraws exRun = Some s'
     \<and> 4 \<le> totalAvailable exRun
     \<and> distinct (eligibleParticipants exRun) \<and> distinct (eligiblePriorityCarry exRun)
     \<and> map team (courts s') =
          [Some [''P1'', ''P2'', ''P3'', ''P4''], Some [''Q1'', ''Q2'', ''Q3'', ''Q4''], None,
           Some [''X'', ''A'', ''B'', ''C'']]
     \<and> teamQueue s' = [[''H'', ''I'', ''J'', ''K''], [''D'', ''E'', ''F'', ''G'']]
     \<and> (\<exists>priorityTeamsOut otherTeamsOut seating.
           formTeams (lastTeamSigByPlayer exRun) (playedCount exRun) zeroDraws (others exRun)
              (eligiblePriorityCarry exRun) = Some (priorityTeamsOut, otherTeamsOut, priorityCarry s')
           \<and> seating = teamQueue exRun @ priorityTeamsOut
                 @ sortByAvgCount (playedCount exRun) otherTeamsOut
           \<and> teamQueue s' =
               drop (length (filter (courtFree (disabledCourtsOnce exRun)) (courts exRun))) seating)"
proof -
  from handleMakeTeams_seating [OF exRun_enough, of zeroDraws] exRun_distinct
  obtain s' where run: "handleMakeTeams zeroDraws exRun = Some s'" by blast
  from exRun_result run have r: "map team (courts s') =
          [Some [''P1'', ''P2'', ''P3'', ''P4''], Some [''Q1'', ''Q2'', ''Q3'', ''Q4''], None,
           Some [''X'', ''A'', ''B'', ''C'']]"
    "teamQueue s' = [[''H'', ''I'', ''J'', ''K''], [''D'', ''E'', ''F'', ''G'']]"
    by simp_all
  from handleMakeTeams_seating [OF exRun_enough, of zeroDraws] run
  have ex: "\<exists>priorityTeamsOut otherTeamsOut seating.
           formTeams (lastTeamSigByPlayer exRun) (playedCount exRun) zeroDraws (others exRun)
              (eligiblePriorityCarry exRun) = Some (priorityTeamsOut, otherTeamsOut, priorityCarry s')
           \<and> seating = teamQueue exRun @ priorityTeamsOut
                 @ sortByAvgCount (playedCount exRun) otherTeamsOut
           \<and> teamQueue s' =
               drop (length (filter (courtFree (disabledCourtsOnce exRun)) (courts exRun))) seating"
    by blast
  show ?thesis
    by (intro exI [of _ s'] conjI run r exRun_enough exRun_distinct ex)
qed

lemma exSwapped_state:
  "map team (courts exSwapped) = [Some [], Some [''P1'', ''Q2'', ''Q3'', ''Q4'']]"
  "map cid (courts exSwapped) = [1, 2]"
  "teamQueue exSwapped = [[''Q1'', ''P2'', ''P3'', ''P4'']]"
  "disabledCourtsOnce exSwapped = []"
  "eligibleParticipants exSwapped = [''A'', ''B'', ''C'', ''D'']"
  "eligiblePriorityCarry exSwapped = []"
  by (simp_all add: exSwapped_def returnReplacedToSource_def Let_def exDrop_def emptyCourt_def
      eligibleParticipants_def eligiblePriorityCarry_def)

text \<open>
  Claim C1. The claim fails on a court whose team is the empty array. After a player of
  court 2 has been swapped by drag and drop with a player of the queued team, court 1,
  which had no team, has the team \<open>[]\<close>: it is enabled and nobody is on it, one team is
  queued and four players are waiting. The formation run seats nobody on court 1: the
  court still has the team \<open>[]\<close>, and the queued team and the new team are both in the
  queue.
\<close>

theorem handleMakeTeams_empty_array:
  "map team (courts exSwapped) = [Some [], Some [''P1'', ''Q2'', ''Q3'', ''Q4'']]
   \<and> disabledCourtsOnce exSwapped = []
   \<and> teamQueue exSwapped = [[''Q1'', ''P2'', ''P3'', ''P4'']]
   \<and> eligibleParticipants exSwapped = [''A'', ''B'', ''C'', ''D'']
   \<and> map_option (map team \<circ> courts) (handleMakeTeams zeroDraws exSwapped) =
        Some [Some [], Some [''P1'', ''Q2'', ''Q3'', ''Q4'']]
   \<and> map_option teamQueue (handleMakeTeams zeroDraws exSwapped) =
        Some [[''Q1'', ''P2'', ''P3'', ''P4''], [''A'', ''B'', ''C'', ''D'']]"
proof -
  have "map_option (map team \<circ> courts) (handleMakeTeams zeroDraws exSwapped) =
        Some [Some [], Some [''P1'', ''Q2'', ''Q3'', ''Q4'']]"
    by code_simp
  moreover have "map_option teamQueue (handleMakeTeams zeroDraws exSwapped) =
        Some [[''Q1'', ''P2'', ''P3'', ''P4''], [''A'', ''B'', ''C'', ''D'']]"
    by code_simp
  ultimately show ?thesis by (simp add: exSwapped_state)
qed

lemma handleMakeTeams_conserves_aux:
  "4 \<le> totalAvailable s \<Longrightarrow> handleMakeTeams g s = Some s' \<Longrightarrow>
   \<exists>priorityTeamsOut otherTeamsOut newTeams.
     formTeams (lastTeamSigByPlayer s) (playedCount s) g (others s) (eligiblePriorityCarry s)
       = Some (priorityTeamsOut, otherTeamsOut, priorityCarry s')
     \<and> newTeams = priorityTeamsOut @ otherTeamsOut
     \<and> mset (concat newTeams) + mset (priorityCarry s')
          = mset (others s) + mset (eligiblePriorityCarry s)
     \<and> (\<forall>t \<in> set newTeams. length t = 4)
     \<and> (set (eligibleParticipants s) \<inter> set (eligiblePriorityCarry s) = {} \<longrightarrow>
          mset (concat newTeams) + mset (priorityCarry s')
            = mset (eligibleParticipants s) + mset (eligiblePriorityCarry s))
     \<and> (distinct (eligibleParticipants s) \<and> distinct (eligiblePriorityCarry s) \<longrightarrow>
          distinct (concat newTeams @ priorityCarry s')
          \<and> (\<forall>t \<in> set newTeams. distinct t
                \<and> set t \<subseteq> set (eligibleParticipants s) \<union> set (eligiblePriorityCarry s))
          \<and> (\<forall>i j. i < j \<and> j < length newTeams \<longrightarrow>
                set (newTeams ! i) \<inter> set (newTeams ! j) = {}))"
proof -
  assume enough: "4 \<le> totalAvailable s" and run: "handleMakeTeams g s = Some s'"
  from handleMakeTeams_formed [OF enough run] obtain pt ot where
    f: "formTeams (lastTeamSigByPlayer s) (playedCount s) g (others s) (eligiblePriorityCarry s)
       = Some (pt, ot, priorityCarry s')"
    by blast
  let ?new = "pt @ ot"
  note m = formTeams_spec(1) [OF f] and four = formTeams_spec(2) [OF f]
  have disj: "set (eligibleParticipants s) \<inter> set (eligiblePriorityCarry s) = {} \<longrightarrow>
          mset (concat ?new) + mset (priorityCarry s')
            = mset (eligibleParticipants s) + mset (eligiblePriorityCarry s)"
  proof
    assume "set (eligibleParticipants s) \<inter> set (eligiblePriorityCarry s) = {}"
    then have "others s = eligibleParticipants s"
      unfolding others_def by (intro filter_True) auto
    then show "mset (concat ?new) + mset (priorityCarry s')
            = mset (eligibleParticipants s) + mset (eligiblePriorityCarry s)" using m by simp
  qed
  have dist: "distinct (eligibleParticipants s) \<and> distinct (eligiblePriorityCarry s) \<longrightarrow>
          distinct (concat ?new @ priorityCarry s')
          \<and> (\<forall>t \<in> set ?new. distinct t
                \<and> set t \<subseteq> set (eligibleParticipants s) \<union> set (eligiblePriorityCarry s))
          \<and> (\<forall>i j. i < j \<and> j < length ?new \<longrightarrow> set (?new ! i) \<inter> set (?new ! j) = {})"
  proof
    assume d: "distinct (eligibleParticipants s) \<and> distinct (eligiblePriorityCarry s)"
    have "distinct (others s @ eligiblePriorityCarry s)"
      using d unfolding others_def by auto
    moreover have me: "mset (concat ?new @ priorityCarry s') = mset (others s @ eligiblePriorityCarry s)"
      using m unfolding mset_append .
    ultimately have dc: "distinct (concat ?new @ priorityCarry s')"
      using mset_eq_imp_distinct_iff by blast
    then have dn: "distinct (concat ?new)" unfolding distinct_append by (rule conjunct1)
    have sub: "set (concat ?new) \<subseteq> set (eligibleParticipants s) \<union> set (eligiblePriorityCarry s)"
    proof -
      from me have "set (concat ?new @ priorityCarry s') = set (others s @ eligiblePriorityCarry s)"
        by (rule mset_eq_setD)
      then show ?thesis unfolding others_def by auto
    qed
    have each: "\<forall>t \<in> set ?new. distinct t
                \<and> set t \<subseteq> set (eligibleParticipants s) \<union> set (eligiblePriorityCarry s)"
    proof
      fix t assume t: "t \<in> set ?new"
      with dn have "distinct t" unfolding distinct_concat_iff by blast
      moreover from t have "set t \<subseteq> set (concat ?new)" by auto
      ultimately show "distinct t
                \<and> set t \<subseteq> set (eligibleParticipants s) \<union> set (eligiblePriorityCarry s)"
        using sub by blast
    qed
    have pair: "\<forall>i j. i < j \<and> j < length ?new \<longrightarrow> set (?new ! i) \<inter> set (?new ! j) = {}"
      using distinct_concat_nth_disjoint [OF dn] by blast
    from dc each pair show "distinct (concat ?new @ priorityCarry s')
          \<and> (\<forall>t \<in> set ?new. distinct t
                \<and> set t \<subseteq> set (eligibleParticipants s) \<union> set (eligiblePriorityCarry s))
          \<and> (\<forall>i j. i < j \<and> j < length ?new \<longrightarrow> set (?new ! i) \<inter> set (?new ! j) = {})"
      by blast
  qed
  from f m four disj dist show ?thesis by blast
qed


text \<open>
  Claim C10, as amended. A formation run with at least four eligible players returns
  when neither eligible list has a name twice. Whenever it returns, the members of the new teams together with the new priority carry-over are,
  as a multiset, the eligible waiting players who are not also eligible priority
  players together with the eligible priority players; every new team has exactly
  four members. When no player is in both eligible lists this is the multiset of all
  eligible players. When each eligible list is free of duplicates, no player occurs
  twice among the new teams and the new carry-over: every team consists of four
  distinct eligible players and no two teams share a player.
\<close>

theorem handleMakeTeams_conserves:
  "4 \<le> totalAvailable s \<Longrightarrow>
   (distinct (eligibleParticipants s) \<and> distinct (eligiblePriorityCarry s) \<longrightarrow>
      (\<exists>s'. handleMakeTeams g s = Some s'))
   \<and> (\<forall>s'. handleMakeTeams g s = Some s' \<longrightarrow>
     (\<exists>priorityTeamsOut otherTeamsOut newTeams.
       formTeams (lastTeamSigByPlayer s) (playedCount s) g (others s) (eligiblePriorityCarry s)
         = Some (priorityTeamsOut, otherTeamsOut, priorityCarry s')
       \<and> newTeams = priorityTeamsOut @ otherTeamsOut
       \<and> mset (concat newTeams) + mset (priorityCarry s')
            = mset (others s) + mset (eligiblePriorityCarry s)
       \<and> (\<forall>t \<in> set newTeams. length t = 4)
       \<and> (set (eligibleParticipants s) \<inter> set (eligiblePriorityCarry s) = {} \<longrightarrow>
            mset (concat newTeams) + mset (priorityCarry s')
              = mset (eligibleParticipants s) + mset (eligiblePriorityCarry s))
       \<and> (distinct (eligibleParticipants s) \<and> distinct (eligiblePriorityCarry s) \<longrightarrow>
            distinct (concat newTeams @ priorityCarry s')
            \<and> (\<forall>t \<in> set newTeams. distinct t
                  \<and> set t \<subseteq> set (eligibleParticipants s) \<union> set (eligiblePriorityCarry s))
            \<and> (\<forall>i j. i < j \<and> j < length newTeams \<longrightarrow>
                  set (newTeams ! i) \<inter> set (newTeams ! j) = {}))))"
  using handleMakeTeams_returns [of s g] handleMakeTeams_conserves_aux [of s g] by blast

lemma exRun_formed:
  "formTeams (lastTeamSigByPlayer exRun) (playedCount exRun) zeroDraws (others exRun)
     (eligiblePriorityCarry exRun)
   = Some ([[''X'', ''A'', ''B'', ''C'']],
           [[''D'', ''E'', ''F'', ''G''], [''H'', ''I'', ''J'', ''K'']], [])"
  by code_simp

theorem handleMakeTeams_conserves_witness:
  "\<exists>s'. handleMakeTeams zeroDraws exRun = Some s'
     \<and> 4 \<le> totalAvailable exRun
     \<and> distinct (eligibleParticipants exRun) \<and> distinct (eligiblePriorityCarry exRun)
     \<and> formTeams (lastTeamSigByPlayer exRun) (playedCount exRun) zeroDraws (others exRun)
          (eligiblePriorityCarry exRun)
        = Some ([[''X'', ''A'', ''B'', ''C'']],
                [[''D'', ''E'', ''F'', ''G''], [''H'', ''I'', ''J'', ''K'']], [])
     \<and> (\<exists>priorityTeamsOut otherTeamsOut newTeams.
           formTeams (lastTeamSigByPlayer exRun) (playedCount exRun) zeroDraws (others exRun)
             (eligiblePriorityCarry exRun) = Some (priorityTeamsOut, otherTeamsOut, priorityCarry s')
           \<and> newTeams = priorityTeamsOut @ otherTeamsOut
           \<and> mset (concat newTeams) + mset (priorityCarry s')
                = mset (eligibleParticipants exRun) + mset (eligiblePriorityCarry exRun)
           \<and> distinct (concat newTeams @ priorityCarry s'))"
proof -
  from handleMakeTeams_conserves [OF exRun_enough, of zeroDraws] exRun_distinct
  obtain s' where run: "handleMakeTeams zeroDraws exRun = Some s'" by blast
  have disj: "set (eligibleParticipants exRun) \<inter> set (eligiblePriorityCarry exRun) = {}"
    by (simp add: eligibleParticipants_def eligiblePriorityCarry_def exRun_def)
  from handleMakeTeams_conserves [OF exRun_enough, of zeroDraws] run disj exRun_distinct
  have ex: "\<exists>priorityTeamsOut otherTeamsOut newTeams.
           formTeams (lastTeamSigByPlayer exRun) (playedCount exRun) zeroDraws (others exRun)
             (eligiblePriorityCarry exRun) = Some (priorityTeamsOut, otherTeamsOut, priorityCarry s')
           \<and> newTeams = priorityTeamsOut @ otherTeamsOut
           \<and> mset (concat newTeams) + mset (priorityCarry s')
                = mset (eligibleParticipants exRun) + mset (eligiblePriorityCarry exRun)
           \<and> distinct (concat newTeams @ priorityCarry s')"
    by blast
  show ?thesis
    by (intro exI [of _ s'] conjI run exRun_enough exRun_distinct exRun_formed ex)
qed

lemma exOverlap_eligible:
  "eligibleParticipants exOverlap = [''X'', ''B'', ''B'', ''C'']"
  "eligiblePriorityCarry exOverlap = [''X'']"
  by (simp_all add: eligibleParticipants_def eligiblePriorityCarry_def exOverlap_def)

lemma exOverlap_formed:
  "formTeams (lastTeamSigByPlayer exOverlap) (playedCount exOverlap) zeroDraws (others exOverlap)
     (eligiblePriorityCarry exOverlap)
   = Some ([[''X'', ''B'', ''B'', ''C'']], [], [])"
  "map_option priorityCarry (handleMakeTeams zeroDraws exOverlap) = Some []"
  "map_option (map team \<circ> courts) (handleMakeTeams zeroDraws exOverlap)
     = Some [Some [''X'', ''B'', ''B'', ''C''], None]"
  by code_simp+

text \<open>
  The claim as stated fails where a player is listed twice: with \<open>X\<close> in the priority
  carry-over and in the waiting pool, and \<open>B\<close> twice in the waiting pool, the five
  eligible entries become one team of four and an empty carry-over, and \<open>B\<close> is twice
  in that team.
\<close>

theorem handleMakeTeams_conserves_counterexample:
  "4 \<le> totalAvailable exOverlap
   \<and> formTeams (lastTeamSigByPlayer exOverlap) (playedCount exOverlap) zeroDraws (others exOverlap)
        (eligiblePriorityCarry exOverlap)
      = Some ([[''X'', ''B'', ''B'', ''C'']], [], [])
   \<and> map_option priorityCarry (handleMakeTeams zeroDraws exOverlap) = Some []
   \<and> map_option (map team \<circ> courts) (handleMakeTeams zeroDraws exOverlap)
        = Some [Some [''X'', ''B'', ''B'', ''C''], None]
   \<and> mset (concat [[''X'', ''B'', ''B'', ''C'']]) + mset []
        \<noteq> mset (eligibleParticipants exOverlap) + mset (eligiblePriorityCarry exOverlap)
   \<and> \<not> distinct [''X'', ''B'', ''B'', ''C'']"
proof -
  have "4 \<le> totalAvailable exOverlap"
    by (simp add: totalAvailable_def exOverlap_eligible)
  moreover have "mset (concat [[''X'', ''B'', ''B'', ''C'']]) + mset []
        \<noteq> mset (eligibleParticipants exOverlap) + mset (eligiblePriorityCarry exOverlap)"
    by (simp add: exOverlap_eligible)
  moreover have "\<not> distinct [''X'', ''B'', ''B'', ''C'']" by simp
  ultimately show ?thesis using exOverlap_formed by blast
qed

subsection \<open>Too few players\<close>

text \<open>
  Claim C2. When fewer than four players are eligible (waiting players who are not
  resting plus priority players who are not resting), the formation run returns, and the
  state it leaves differs from the state before in the rest-once list only, which is
  empty: the waiting pool, the priority carry-over, the courts, the queue, the signature
  map, the played counts and the disabled courts are what they were.
\<close>

theorem handleMakeTeams_too_few:
  "totalAvailable s < 4 \<Longrightarrow>
     handleMakeTeams g s = Some (s\<lparr>restOnce := []\<rparr>)
     \<and> (\<exists>s'. handleMakeTeams g s = Some s'
           \<and> restOnce s' = []
           \<and> participants s' = participants s
           \<and> priorityCarry s' = priorityCarry s
           \<and> courts s' = courts s
           \<and> teamQueue s' = teamQueue s
           \<and> lastTeamSigByPlayer s' = lastTeamSigByPlayer s
           \<and> playedCount s' = playedCount s
           \<and> disabledCourtsOnce s' = disabledCourtsOnce s)"
  by (simp add: handleMakeTeams_def)

lemma totalAvailable_exFew: "totalAvailable exFew = 2"
  by (simp add: totalAvailable_def eligibleParticipants_def eligiblePriorityCarry_def exFew_def)

theorem handleMakeTeams_too_few_witness:
  "totalAvailable exFew < 4
   \<and> handleMakeTeams zeroDraws exFew = Some (exFew\<lparr>restOnce := []\<rparr>)
   \<and> restOnce exFew = [''Z'']
   \<and> priorityCarry (exFew\<lparr>restOnce := []\<rparr>) = [''X'']"
  using handleMakeTeams_too_few [of exFew zeroDraws] totalAvailable_exFew
  by (simp add: exFew_def)

subsection \<open>Resting once\<close>





end
